theory Spec2Isabelle
  imports Complex_Main "HOL-Library.Sublist"
begin

text \<open>
  A shallow embedding of the parts of Grand-Convergence that its specification makes
  claims about: the convergence/divergence kernels of the CUDA and the Metal backend, the
  Theil-Sen regression \<open>calculateRegression\<close>, and the emission of the data file and the
  HTML pages (\<open>outputDataInJS\<close>, \<open>generateHTML\<close>).  All definitions come first; the
  lemmas and the theorems about the claims follow.
\<close>

section \<open>Checked memory accesses\<close>

text \<open>
  The code indexes three kinds of memory: the flat device buffers of the kernels
  (\<open>conP_part1\<close>, \<open>offsets\<close>, \<open>nodePairs\<close> and the two output arrays), the two
  thread-local arrays \<open>sumcK[20]\<close> and \<open>sumdK[20]\<close> of a kernel thread, and the heap
  blocks of the regression and of the emitter.  C gives no meaning to an access outside
  an array, nor to a signed \<open>int\<close> operation whose result does not fit in 32 bits, so
  every such access and operation of the model is checked: an access outside the array
  ends the run with the offending index, an \<open>int\<close> result outside the range ends it with
  the value that does not fit.
\<close>

datatype access_error =
    LocalOutOfBounds nat
  | BufferOutOfBounds nat
  | HeapOutOfBounds int nat
  | IntOverflow int

type_synonym 'a checked = "access_error + 'a"

definition and_then :: "'a checked \<Rightarrow> ('a \<Rightarrow> 'b checked) \<Rightarrow> 'b checked" where
  "and_then m f = (case m of Inl e \<Rightarrow> Inl e | Inr x \<Rightarrow> f x)"

text \<open>The value of an \<open>int\<close> expression.  \<open>int_expr\<close> is the same check for the expressions
  of the kernels, whose operands (thread coordinates, sizes, node numbers) are never
  negative and are carried as natural numbers.\<close>

definition c_int :: "int \<Rightarrow> int checked" where
  "c_int v = (if - (2 ^ 31) \<le> v \<and> v < 2 ^ 31 then Inr v else Inl (IntOverflow v))"

definition int_expr :: "nat \<Rightarrow> nat checked" where
  "int_expr v = (if v < 2 ^ 31 then Inr v else Inl (IntOverflow (int v)))"

definition read_buffer :: "'a list \<Rightarrow> nat \<Rightarrow> 'a checked" where
  "read_buffer buf i = (if i < length buf then Inr (buf ! i) else Inl (BufferOutOfBounds i))"

definition write_buffer :: "'a list \<Rightarrow> nat \<Rightarrow> 'a \<Rightarrow> 'a list checked" where
  "write_buffer buf i v = (if i < length buf then Inr (buf[i := v]) else Inl (BufferOutOfBounds i))"

definition read_local :: "real list \<Rightarrow> nat \<Rightarrow> real checked" where
  "read_local a k = (if k < length a then Inr (a ! k) else Inl (LocalOutOfBounds k))"

definition write_local :: "real list \<Rightarrow> nat \<Rightarrow> real \<Rightarrow> real list checked" where
  "write_local a k v = (if k < length a then Inr (a[k := v]) else Inl (LocalOutOfBounds k))"

text \<open>A counted \<open>for\<close> loop: the body runs once per index, in order, and the first failing
  access ends the loop.\<close>

fun for_each :: "nat list \<Rightarrow> (nat \<Rightarrow> 's \<Rightarrow> 's checked) \<Rightarrow> 's \<Rightarrow> 's checked" where
  "for_each [] body s = Inr s"
| "for_each (i # rest) body s = and_then (body i s) (for_each rest body)"

text \<open>A thread-local array declaration \<open>double a[len]\<close>.  Both kernels store to a cell
  before they load from it, so the initial contents are never observed.\<close>

definition local_array :: "nat \<Rightarrow> real list" where
  "local_array len = replicate len 0"

section \<open>The CUDA kernel (\<open>convergence_cuda.cu\<close>)\<close>

text \<open>
  \<open>P1\<close> and \<open>P2\<close> are the positions in \<open>conP_part1\<close> at which the two matrices of the
  work item start, so that the source's \<open>P2[j * n + k]\<close> is the buffer cell
  \<open>P2 + j * n + k\<close>.  One step of the inner loop of the first loop nest:
  \<open>val = P2[j*n+k]; sumcK[k] += val; sumdforJ += val\<close>.
\<close>

definition cuda_colsum_step ::
  "real list \<Rightarrow> nat \<Rightarrow> nat \<Rightarrow> nat \<Rightarrow> nat \<Rightarrow> real list \<times> real \<Rightarrow> (real list \<times> real) checked" where
  "cuda_colsum_step conP P2 n j k st =
     (case st of (sumcK, sumdforJ) \<Rightarrow>
        and_then (read_buffer conP (P2 + j * n + k)) (\<lambda>val.
        and_then (read_local sumcK k) (\<lambda>c.
        and_then (write_local sumcK k (c + val)) (\<lambda>sumcK'.
        Inr (sumcK', sumdforJ + val)))))"

text \<open>One row \<open>j\<close> of the first loop nest: the inner loop over \<open>k < n\<close>, then the diagonal is
  taken out of \<open>sumcK[j]\<close> and out of \<open>sumdforJ\<close>.\<close>

definition cuda_colsum_row ::
  "real list \<Rightarrow> nat \<Rightarrow> nat \<Rightarrow> nat \<Rightarrow> real list \<times> real \<Rightarrow> (real list \<times> real) checked" where
  "cuda_colsum_row conP P2 n j st =
     and_then (for_each [0..<n] (cuda_colsum_step conP P2 n j) st) (\<lambda>st'.
       case st' of (sumcK, sumdforJ) \<Rightarrow>
        and_then (read_buffer conP (P2 + j * n + j)) (\<lambda>diag.
        and_then (read_local sumcK j) (\<lambda>c.
        and_then (write_local sumcK j (c - diag)) (\<lambda>sumcK'.
        and_then (read_buffer conP (P2 + j * n + j)) (\<lambda>diag'.
        Inr (sumcK', sumdforJ - diag'))))))"

text \<open>\<open>sumdK[k] = sumdforJ - sumcK[k]\<close>.\<close>

definition cuda_sumdK_step :: "real list \<Rightarrow> real \<Rightarrow> nat \<Rightarrow> real list \<Rightarrow> real list checked" where
  "cuda_sumdK_step sumcK sumdforJ k sumdK =
     and_then (read_local sumcK k) (\<lambda>c. write_local sumdK k (sumdforJ - c))"

text \<open>The second loop nest: \<open>probC += sumcK[k] * p1_val; probD += sumdK[k] * p1_val\<close>, and
  after each row the diagonal contribution is subtracted.\<close>

definition cuda_prob_step ::
  "real list \<Rightarrow> nat \<Rightarrow> nat \<Rightarrow> real list \<Rightarrow> real list \<Rightarrow> nat \<Rightarrow> nat \<Rightarrow> real \<times> real
     \<Rightarrow> (real \<times> real) checked" where
  "cuda_prob_step conP P1 n sumcK sumdK j k st =
     (case st of (probC, probD) \<Rightarrow>
        and_then (read_buffer conP (P1 + j * n + k)) (\<lambda>p1_val.
        and_then (read_local sumcK k) (\<lambda>c.
        and_then (read_local sumdK k) (\<lambda>d.
        Inr (probC + c * p1_val, probD + d * p1_val)))))"

definition cuda_prob_row ::
  "real list \<Rightarrow> nat \<Rightarrow> nat \<Rightarrow> real list \<Rightarrow> real list \<Rightarrow> nat \<Rightarrow> real \<times> real
     \<Rightarrow> (real \<times> real) checked" where
  "cuda_prob_row conP P1 n sumcK sumdK j st =
     and_then (for_each [0..<n] (cuda_prob_step conP P1 n sumcK sumdK j) st) (\<lambda>st'.
       case st' of (probC, probD) \<Rightarrow>
        and_then (read_buffer conP (P1 + j * n + j)) (\<lambda>p1_diag.
        and_then (read_local sumcK j) (\<lambda>c.
        and_then (read_local sumdK j) (\<lambda>d.
        Inr (probC - c * p1_diag, probD - d * p1_diag)))))"

text \<open>The body of a thread from the declaration of the local arrays to the final values of
  \<open>probC\<close> and \<open>probD\<close>.  The initialisation loop and the arrays have the fixed size 20;
  the other loops run to \<open>n\<close>.\<close>

definition cuda_site_reduction :: "real list \<Rightarrow> nat \<Rightarrow> nat \<Rightarrow> nat \<Rightarrow> (real \<times> real) checked" where
  "cuda_site_reduction conP P1 P2 n =
     and_then (for_each [0..<20] (\<lambda>k a. write_local a k 0) (local_array 20)) (\<lambda>sumcK0.
     and_then (for_each [0..<n] (cuda_colsum_row conP P2 n) (sumcK0, 0)) (\<lambda>st.
       case st of (sumcK, sumdforJ) \<Rightarrow>
     and_then (for_each [0..<n] (cuda_sumdK_step sumcK sumdforJ) (local_array 20)) (\<lambda>sumdK.
     for_each [0..<n] (cuda_prob_row conP P1 n sumcK sumdK) (0, 0))))"

text \<open>
  The whole thread.  \<open>blockIdx\<close>, \<open>blockDim\<close> and \<open>threadIdx\<close> are unsigned 32-bit
  values, so \<open>blockIdx.y * blockDim.x + threadIdx.x\<close> is computed modulo \<open>2^32\<close> and then
  converted to the \<open>int\<close> \<open>siteIdx\<close>; a value that the conversion would make negative
  ends the run of the model (the limits of a CUDA grid keep both coordinates below
  \<open>2^31\<close>).  The products \<open>pairIdx * 3\<close>, \<open>siteIdx * n * n\<close> and \<open>pairIdx * numSites\<close> are
  \<open>int\<close> products.  An entry of \<open>offsets\<close> is an \<open>unsigned int\<close>, and adding it and the
  product to the pointer \<open>conP_part1\<close> is 64-bit pointer arithmetic, which the model
  carries out on the position in the buffer.  The parameters \<open>numSites\<close>, \<open>numPairs\<close> and
  \<open>n\<close> are \<open>int\<close>s that the host passes non-negative.  The two output arrays are the
  device buffers \<open>d_pConvergent\<close> and \<open>d_pDivergent\<close> that the host passes as
  \<open>pConvergent\<close> and \<open>pDivergent\<close>.
\<close>

record kernel_outputs =
  d_pConvergent :: "real list"
  d_pDivergent :: "real list"

definition cuda_convergence_kernel ::
  "real list \<Rightarrow> nat list \<Rightarrow> nat list \<Rightarrow> kernel_outputs \<Rightarrow> nat \<Rightarrow> nat \<Rightarrow> nat
     \<Rightarrow> nat \<Rightarrow> nat \<Rightarrow> nat \<Rightarrow> nat \<Rightarrow> kernel_outputs checked" where
  "cuda_convergence_kernel conP_part1 offsets nodePairs out numSites numPairs n
       blockIdx_x blockIdx_y blockDim_x threadIdx_x =
     and_then (int_expr blockIdx_x) (\<lambda>pairIdx.
     and_then (int_expr ((blockIdx_y * blockDim_x + threadIdx_x) mod 2 ^ 32)) (\<lambda>siteIdx.
       if numPairs \<le> pairIdx \<or> numSites \<le> siteIdx then Inr out
       else
         and_then (int_expr (pairIdx * 3)) (\<lambda>first.
         and_then (read_buffer nodePairs first) (\<lambda>inode.
         and_then (int_expr (first + 1)) (\<lambda>second.
         and_then (read_buffer nodePairs second) (\<lambda>jnode.
         and_then (read_buffer offsets inode) (\<lambda>offset1.
         and_then (int_expr (siteIdx * n)) (\<lambda>site_rows.
         and_then (int_expr (site_rows * n)) (\<lambda>site_cells.
         and_then (read_buffer offsets jnode) (\<lambda>offset2.
         and_then (cuda_site_reduction conP_part1 (offset1 + site_cells)
                      (offset2 + site_cells) n) (\<lambda>probs.
         and_then (int_expr (pairIdx * numSites)) (\<lambda>pair_row.
         and_then (int_expr (pair_row + siteIdx)) (\<lambda>outIdx.
         and_then (write_buffer (d_pConvergent out) outIdx (fst probs)) (\<lambda>pc.
         and_then (write_buffer (d_pDivergent out) outIdx (snd probs)) (\<lambda>pd.
         Inr \<lparr>d_pConvergent = pc, d_pDivergent = pd\<rparr>)))))))))))))))"

section \<open>The Metal kernel (\<open>convergence_metal.metal\<close>)\<close>

text \<open>
  The Metal kernel strides the matrices by \<open>n\<close> as well, but each of its loops runs to the
  constant 20.  A row accumulates \<open>rowSum\<close> and adds \<open>rowSum - diag\<close> to \<open>sumdforJ\<close>; the
  diagonal entry is loaded before the inner loop.
\<close>

definition metal_colsum_step ::
  "real list \<Rightarrow> nat \<Rightarrow> nat \<Rightarrow> nat \<Rightarrow> nat \<Rightarrow> real list \<times> real \<Rightarrow> (real list \<times> real) checked" where
  "metal_colsum_step conP P2 n j k st =
     (case st of (sumcK, rowSum) \<Rightarrow>
        and_then (read_buffer conP (P2 + j * n + k)) (\<lambda>val.
        and_then (read_local sumcK k) (\<lambda>c.
        and_then (write_local sumcK k (c + val)) (\<lambda>sumcK'.
        Inr (sumcK', rowSum + val)))))"

definition metal_colsum_row ::
  "real list \<Rightarrow> nat \<Rightarrow> nat \<Rightarrow> nat \<Rightarrow> real list \<times> real \<Rightarrow> (real list \<times> real) checked" where
  "metal_colsum_row conP P2 n j st =
     (case st of (sumcK, sumdforJ) \<Rightarrow>
        and_then (read_buffer conP (P2 + j * n + j)) (\<lambda>diag.
        and_then (for_each [0..<20] (metal_colsum_step conP P2 n j) (sumcK, 0)) (\<lambda>st'.
          case st' of (sumcK', rowSum) \<Rightarrow>
        and_then (read_local sumcK' j) (\<lambda>c.
        and_then (write_local sumcK' j (c - diag)) (\<lambda>sumcK''.
        Inr (sumcK'', sumdforJ + (rowSum - diag)))))))"

definition metal_sumdK_step :: "real list \<Rightarrow> real \<Rightarrow> nat \<Rightarrow> real list \<Rightarrow> real list checked" where
  "metal_sumdK_step sumcK sumdforJ k sumdK =
     and_then (read_local sumcK k) (\<lambda>c. write_local sumdK k (sumdforJ - c))"

definition metal_prob_step ::
  "real list \<Rightarrow> nat \<Rightarrow> nat \<Rightarrow> real list \<Rightarrow> real list \<Rightarrow> nat \<Rightarrow> nat \<Rightarrow> real \<times> real
     \<Rightarrow> (real \<times> real) checked" where
  "metal_prob_step conP P1 n sumcK sumdK j k st =
     (case st of (probC, probD) \<Rightarrow>
        and_then (read_buffer conP (P1 + j * n + k)) (\<lambda>p1_val.
        and_then (read_local sumcK k) (\<lambda>c.
        and_then (read_local sumdK k) (\<lambda>d.
        Inr (probC + c * p1_val, probD + d * p1_val)))))"

definition metal_prob_row ::
  "real list \<Rightarrow> nat \<Rightarrow> nat \<Rightarrow> real list \<Rightarrow> real list \<Rightarrow> nat \<Rightarrow> real \<times> real
     \<Rightarrow> (real \<times> real) checked" where
  "metal_prob_row conP P1 n sumcK sumdK j st =
     and_then (read_buffer conP (P1 + j * n + j)) (\<lambda>diag_p1.
     and_then (for_each [0..<20] (metal_prob_step conP P1 n sumcK sumdK j) st) (\<lambda>st'.
       case st' of (probC, probD) \<Rightarrow>
     and_then (read_local sumcK j) (\<lambda>c.
     and_then (read_local sumdK j) (\<lambda>d.
     Inr (probC - c * diag_p1, probD - d * diag_p1)))))"

definition metal_site_reduction :: "real list \<Rightarrow> nat \<Rightarrow> nat \<Rightarrow> nat \<Rightarrow> (real \<times> real) checked" where
  "metal_site_reduction conP P1 P2 n =
     and_then (for_each [0..<20] (\<lambda>k a. write_local a k 0) (local_array 20)) (\<lambda>sumcK0.
     and_then (for_each [0..<20] (metal_colsum_row conP P2 n) (sumcK0, 0)) (\<lambda>st.
       case st of (sumcK, sumdforJ) \<Rightarrow>
     and_then (for_each [0..<20] (metal_sumdK_step sumcK sumdforJ) (local_array 20)) (\<lambda>sumdK.
     for_each [0..<20] (metal_prob_row conP P1 n sumcK sumdK) (0, 0))))"

text \<open>
  A thread of the Metal grid handles \<open>sitesPerThread\<close> consecutive sites of one pair and
  leaves the loop at the first site index that is not below \<open>numSites\<close>.  The field
  \<open>state_size\<close> is the source's \<open>params.n\<close>, and \<open>n2\<close> is the \<open>int\<close> product \<open>n * n\<close> that
  the kernel computes before the loop.  \<open>gid.y * sitesPerThread\<close> is an unsigned product,
  computed modulo \<open>2^32\<close> and converted to the \<open>int\<close> \<open>threadSiteBase\<close>; the other index
  expressions are \<open>int\<close> expressions, and the two offsets are added to the pointer as in
  the CUDA kernel.
\<close>

record ConvergenceParams =
  numSites :: nat
  numPairs :: nat
  state_size :: nat
  sitesPerThread :: nat

fun metal_sites_loop ::
  "real list \<Rightarrow> nat \<Rightarrow> nat \<Rightarrow> ConvergenceParams \<Rightarrow> nat \<Rightarrow> nat \<Rightarrow> nat \<Rightarrow> nat list
     \<Rightarrow> kernel_outputs \<Rightarrow> kernel_outputs checked" where
  "metal_sites_loop conP_part1 offset1 offset2 params n2 pairIdx threadSiteBase [] out = Inr out"
| "metal_sites_loop conP_part1 offset1 offset2 params n2 pairIdx threadSiteBase (s # rest) out =
     and_then (int_expr (threadSiteBase + s)) (\<lambda>siteIdx.
       if numSites params \<le> siteIdx then Inr out
       else
         and_then (int_expr (siteIdx * n2)) (\<lambda>site_cells.
         and_then (metal_site_reduction conP_part1 (offset1 + site_cells)
                      (offset2 + site_cells) (state_size params)) (\<lambda>probs.
         and_then (int_expr (pairIdx * numSites params)) (\<lambda>pair_row.
         and_then (int_expr (pair_row + siteIdx)) (\<lambda>outIdx.
         and_then (write_buffer (d_pConvergent out) outIdx (fst probs)) (\<lambda>pc.
         and_then (write_buffer (d_pDivergent out) outIdx (snd probs)) (\<lambda>pd.
         metal_sites_loop conP_part1 offset1 offset2 params n2 pairIdx threadSiteBase rest
           \<lparr>d_pConvergent = pc, d_pDivergent = pd\<rparr>)))))))"

definition metal_convergence_kernel ::
  "real list \<Rightarrow> nat list \<Rightarrow> nat list \<Rightarrow> kernel_outputs \<Rightarrow> ConvergenceParams \<Rightarrow> nat \<Rightarrow> nat
     \<Rightarrow> kernel_outputs checked" where
  "metal_convergence_kernel conP_part1 offsets nodePairs out params gid_x gid_y =
     and_then (int_expr gid_x) (\<lambda>pairIdx.
       if numPairs params \<le> pairIdx then Inr out
       else
         and_then (int_expr (state_size params * state_size params)) (\<lambda>n2.
         and_then (int_expr (pairIdx * 3)) (\<lambda>first.
         and_then (read_buffer nodePairs first) (\<lambda>inode.
         and_then (int_expr (first + 1)) (\<lambda>second.
         and_then (read_buffer nodePairs second) (\<lambda>jnode.
         and_then (read_buffer offsets inode) (\<lambda>offset1.
         and_then (read_buffer offsets jnode) (\<lambda>offset2.
         and_then (int_expr ((gid_y * sitesPerThread params) mod 2 ^ 32)) (\<lambda>threadSiteBase.
         metal_sites_loop conP_part1 offset1 offset2 params n2 pairIdx threadSiteBase
           [0..<sitesPerThread params] out)))))))))"

section \<open>The reduction as the specification states it\<close>

text \<open>
  \<open>entry conP P n\<close> is the matrix view of the \<open>n * n\<close> cells that start at \<open>P\<close>.  The
  following five definitions are the formulas of the specification (section 4.3), written
  over an abstract matrix \<open>P j k\<close>:
  \<open>sumcK[k] = (\<Sum>j. P2[j,k]) - P2[k,k]\<close>,
  \<open>total = (\<Sum>j k. P2[j,k]) - (\<Sum>j. P2[j,j])\<close>, \<open>sumdK[k] = total - sumcK[k]\<close>,
  \<open>probC = (\<Sum>j k. sumcK[k] * P1[j,k]) - (\<Sum>j. sumcK[j] * P1[j,j])\<close> and likewise \<open>probD\<close>.
\<close>

definition entry :: "real list \<Rightarrow> nat \<Rightarrow> nat \<Rightarrow> nat \<Rightarrow> nat \<Rightarrow> real" where
  "entry conP P n j k = conP ! (P + j * n + k)"

definition spec_sumcK :: "(nat \<Rightarrow> nat \<Rightarrow> real) \<Rightarrow> nat \<Rightarrow> nat \<Rightarrow> real" where
  "spec_sumcK P2 n k = (\<Sum>j<n. P2 j k) - P2 k k"

definition spec_total :: "(nat \<Rightarrow> nat \<Rightarrow> real) \<Rightarrow> nat \<Rightarrow> real" where
  "spec_total P2 n = (\<Sum>j<n. \<Sum>k<n. P2 j k) - (\<Sum>j<n. P2 j j)"

definition spec_sumdK :: "(nat \<Rightarrow> nat \<Rightarrow> real) \<Rightarrow> nat \<Rightarrow> nat \<Rightarrow> real" where
  "spec_sumdK P2 n k = spec_total P2 n - spec_sumcK P2 n k"

definition spec_probC :: "(nat \<Rightarrow> nat \<Rightarrow> real) \<Rightarrow> (nat \<Rightarrow> nat \<Rightarrow> real) \<Rightarrow> nat \<Rightarrow> real" where
  "spec_probC P1 P2 n =
     (\<Sum>j<n. \<Sum>k<n. spec_sumcK P2 n k * P1 j k) - (\<Sum>j<n. spec_sumcK P2 n j * P1 j j)"

definition spec_probD :: "(nat \<Rightarrow> nat \<Rightarrow> real) \<Rightarrow> (nat \<Rightarrow> nat \<Rightarrow> real) \<Rightarrow> nat \<Rightarrow> real" where
  "spec_probD P1 P2 n =
     (\<Sum>j<n. \<Sum>k<n. spec_sumdK P2 n k * P1 j k) - (\<Sum>j<n. spec_sumdK P2 n j * P1 j j)"

text \<open>A predicate on every cell of a buffer, used to state "all entries are non-negative" and
  "all entries equal \<open>1/n\<close>".\<close>

definition all_entries :: "(real \<Rightarrow> bool) \<Rightarrow> real list \<Rightarrow> bool" where
  "all_entries ok conP = list_all ok conP"

section \<open>The Theil-Sen regression (\<open>calculateRegression\<close>)\<close>

text \<open>
  The inputs \<open>pDivergent\<close> and \<open>pAllConvergent\<close> are finite doubles, modelled as reals.
  A pairwise slope \<open>ydelta / xdelta\<close> can be infinite (the source keeps such slopes), so
  values computed by the regression are of the type \<open>dbl\<close>: a real number, one of the
  two infinities, or NaN.  The operations follow IEEE 754 on the special values and are
  exact on the finite ones; the model has a single zero.
\<close>

datatype dbl = NegInf | Finite real | PosInf | NaN

fun dbl_neg :: "dbl \<Rightarrow> dbl" where
  "dbl_neg NegInf = PosInf"
| "dbl_neg (Finite a) = Finite (- a)"
| "dbl_neg PosInf = NegInf"
| "dbl_neg NaN = NaN"

fun dbl_add :: "dbl \<Rightarrow> dbl \<Rightarrow> dbl" where
  "dbl_add (Finite a) (Finite b) = Finite (a + b)"
| "dbl_add NaN b = NaN"
| "dbl_add a NaN = NaN"
| "dbl_add PosInf NegInf = NaN"
| "dbl_add NegInf PosInf = NaN"
| "dbl_add PosInf b = PosInf"
| "dbl_add a PosInf = PosInf"
| "dbl_add NegInf b = NegInf"
| "dbl_add a NegInf = NegInf"

definition dbl_sub :: "dbl \<Rightarrow> dbl \<Rightarrow> dbl" where
  "dbl_sub a b = dbl_add a (dbl_neg b)"

definition dbl_inf :: "bool \<Rightarrow> dbl" where
  "dbl_inf positive = (if positive then PosInf else NegInf)"

fun dbl_mul :: "dbl \<Rightarrow> dbl \<Rightarrow> dbl" where
  "dbl_mul (Finite a) (Finite b) = Finite (a * b)"
| "dbl_mul NaN b = NaN"
| "dbl_mul a NaN = NaN"
| "dbl_mul (Finite a) PosInf = (if a = 0 then NaN else dbl_inf (0 < a))"
| "dbl_mul (Finite a) NegInf = (if a = 0 then NaN else dbl_inf (a < 0))"
| "dbl_mul PosInf (Finite b) = (if b = 0 then NaN else dbl_inf (0 < b))"
| "dbl_mul NegInf (Finite b) = (if b = 0 then NaN else dbl_inf (b < 0))"
| "dbl_mul PosInf PosInf = PosInf"
| "dbl_mul NegInf NegInf = PosInf"
| "dbl_mul PosInf NegInf = NegInf"
| "dbl_mul NegInf PosInf = NegInf"

fun dbl_div :: "dbl \<Rightarrow> dbl \<Rightarrow> dbl" where
  "dbl_div (Finite a) (Finite b) =
     (if b = 0 then (if a = 0 then NaN else dbl_inf (0 < a)) else Finite (a / b))"
| "dbl_div NaN b = NaN"
| "dbl_div a NaN = NaN"
| "dbl_div (Finite a) b = Finite 0"
| "dbl_div PosInf (Finite b) = dbl_inf (0 \<le> b)"
| "dbl_div NegInf (Finite b) = dbl_inf (b < 0)"
| "dbl_div a b = NaN"

fun dbl_less :: "dbl \<Rightarrow> dbl \<Rightarrow> bool" where
  "dbl_less (Finite a) (Finite b) = (a < b)"
| "dbl_less NaN b = False"
| "dbl_less a NaN = False"
| "dbl_less a NegInf = False"
| "dbl_less NegInf b = True"
| "dbl_less PosInf b = False"
| "dbl_less a PosInf = True"

fun dbl_eq :: "dbl \<Rightarrow> dbl \<Rightarrow> bool" where
  "dbl_eq NaN b = False"
| "dbl_eq a NaN = False"
| "dbl_eq a b = (a = b)"

definition dbl_ge :: "dbl \<Rightarrow> dbl \<Rightarrow> bool" where
  "dbl_ge a b = (dbl_less b a \<or> dbl_eq a b)"

text \<open>The comparison function handed to \<open>qsort\<close>.\<close>

definition cmpfunc :: "dbl \<Rightarrow> dbl \<Rightarrow> int" where
  "cmpfunc xx yy = (if dbl_less xx yy then - 1 else if dbl_less yy xx then 1 else 0)"

text \<open>
  The C library's \<open>qsort(base, nmemb, size, compar)\<close>, modelled as a stable insertion
  sort that uses nothing but the comparison function.  For values that the comparison
  orders totally (no NaN) the result is the ascending arrangement, whatever algorithm
  the library uses.
\<close>

fun qsort_insert :: "('a \<Rightarrow> 'a \<Rightarrow> int) \<Rightarrow> 'a \<Rightarrow> 'a list \<Rightarrow> 'a list" where
  "qsort_insert cmp a [] = [a]"
| "qsort_insert cmp a (b # bs) = (if cmp a b \<le> 0 then a # b # bs else b # qsort_insert cmp a bs)"

definition qsort :: "'a list \<Rightarrow> ('a \<Rightarrow> 'a \<Rightarrow> int) \<Rightarrow> 'a list" where
  "qsort base cmp = foldr (qsort_insert cmp) base []"

text \<open>
  Heap blocks: accesses are checked against the allocated length, and the index is a C
  \<open>int\<close>.  \<open>malloc len\<close> is a fresh block of \<open>len\<close> doubles; its contents are unspecified, and
  the model fills it with zeros.  The source never tests the pointer that \<open>malloc\<close>
  returns, and the model takes every request to be granted: a run in which the allocator
  returns \<open>NULL\<close> faults at its first access to the block and is not described here.  A
  request of zero bytes yields a block of no cells, so that every access to it is outside
  (C leaves open whether \<open>malloc(0)\<close> returns \<open>NULL\<close>; either way no cell may be accessed).
\<close>

definition read_heap :: "'a list \<Rightarrow> int \<Rightarrow> 'a checked" where
  "read_heap buf i =
     (if 0 \<le> i \<and> i < int (length buf) then Inr (buf ! nat i)
      else Inl (HeapOutOfBounds i (length buf)))"

definition write_heap :: "'a list \<Rightarrow> int \<Rightarrow> 'a \<Rightarrow> 'a list checked" where
  "write_heap buf i v =
     (if 0 \<le> i \<and> i < int (length buf) then Inr (buf[nat i := v])
      else Inl (HeapOutOfBounds i (length buf)))"

definition malloc :: "nat \<Rightarrow> dbl list" where
  "malloc len = replicate len (Finite 0)"

text \<open>The index pairs \<open>(i, j)\<close> with \<open>i < j < numBranchPairs\<close> in the order of the two
  nested loops.\<close>

definition index_pairs :: "nat \<Rightarrow> (nat \<times> nat) list" where
  "index_pairs numBranchPairs =
     concat (map (\<lambda>i. map (\<lambda>j. (i, j)) [i + 1..<numBranchPairs]) [0..<numBranchPairs])"

text \<open>The body shared by both passes: \<open>None\<close> is a \<open>continue\<close> or a slope equal to zero,
  \<open>Some slope\<close> a slope that is counted (pass 1) or stored (pass 2).\<close>

definition pair_slope :: "real list \<Rightarrow> real list \<Rightarrow> nat \<times> nat \<Rightarrow> dbl option" where
  "pair_slope pDivergent pAllConvergent p =
     (case p of (i, j) \<Rightarrow>
        let xdelta = pDivergent ! i - pDivergent ! j;
            ydelta = pAllConvergent ! i - pAllConvergent ! j
        in if xdelta = 0 \<and> ydelta = 0 then None
           else let slope = dbl_div (Finite ydelta) (Finite xdelta)
                in if dbl_eq slope (Finite (- 1)) then None
                   else if \<not> dbl_eq slope (Finite 0) then Some slope
                   else None)"

text \<open>
  Pass 1 counts with the \<open>int\<close> variable \<open>counter\<close>, pass 2 stores
  \<open>vector[index] = slope; index++\<close> into the block of \<open>counter\<close> doubles, \<open>index\<close> being an
  \<open>int\<close> as well.  The loop variables \<open>i\<close> and \<open>j\<close> stay below the \<open>int\<close>
  \<open>numBranchPairs\<close>.  \<open>collect_slopes\<close> is the code from the first loop to the end of the
  second one, and its result is the block \<open>vector\<close>.
\<close>

fun count_loop :: "real list \<Rightarrow> real list \<Rightarrow> (nat \<times> nat) list \<Rightarrow> int \<Rightarrow> int checked" where
  "count_loop pDivergent pAllConvergent [] counter = Inr counter"
| "count_loop pDivergent pAllConvergent (p # rest) counter =
     (case pair_slope pDivergent pAllConvergent p of
        None \<Rightarrow> count_loop pDivergent pAllConvergent rest counter
      | Some slope \<Rightarrow>
          and_then (c_int (counter + 1)) (count_loop pDivergent pAllConvergent rest))"

definition count_slopes :: "real list \<Rightarrow> real list \<Rightarrow> nat \<Rightarrow> int checked" where
  "count_slopes pDivergent pAllConvergent numBranchPairs =
     count_loop pDivergent pAllConvergent (index_pairs numBranchPairs) 0"

fun collect_loop ::
  "real list \<Rightarrow> real list \<Rightarrow> (nat \<times> nat) list \<Rightarrow> dbl list \<times> int \<Rightarrow> (dbl list \<times> int) checked" where
  "collect_loop pDivergent pAllConvergent [] st = Inr st"
| "collect_loop pDivergent pAllConvergent (p # rest) (vector, index) =
     (case pair_slope pDivergent pAllConvergent p of
        None \<Rightarrow> collect_loop pDivergent pAllConvergent rest (vector, index)
      | Some slope \<Rightarrow>
          and_then (write_heap vector index slope) (\<lambda>vector'.
          and_then (c_int (index + 1)) (\<lambda>index'.
          collect_loop pDivergent pAllConvergent rest (vector', index'))))"

definition collect_slopes :: "real list \<Rightarrow> real list \<Rightarrow> nat \<Rightarrow> dbl list checked" where
  "collect_slopes pDivergent pAllConvergent numBranchPairs =
     and_then (count_slopes pDivergent pAllConvergent numBranchPairs) (\<lambda>counter.
     and_then (collect_loop pDivergent pAllConvergent (index_pairs numBranchPairs)
                 (malloc (nat counter), 0))
       (\<lambda>st. Inr (fst st)))"

text \<open>
  The loop that sets \<open>cutoff\<close>: the variable starts at 0, and the first \<open>i\<close> with
  \<open>vector[i] >= -1\<close> sets it to \<open>i - 1\<close> and leaves the loop.  \<open>cutoff_scan i rest\<close> is the
  loop from index \<open>i\<close> on, \<open>rest\<close> being the cells from \<open>i\<close> to the end.
\<close>

fun cutoff_scan :: "nat \<Rightarrow> dbl list \<Rightarrow> int" where
  "cutoff_scan i [] = 0"
| "cutoff_scan i (v # rest) =
     (if dbl_ge v (Finite (- 1)) then int i - 1 else cutoff_scan (Suc i) rest)"

text \<open>The slope \<open>k\<close>: the two reads for an even count, one read for an odd count.  The
  counter is never negative, so that C's \<open>/\<close> and \<open>%\<close> are \<open>div\<close> and \<open>mod\<close>.\<close>

definition median_slope :: "dbl list \<Rightarrow> int \<Rightarrow> int \<Rightarrow> dbl checked" where
  "median_slope vector counter cutoff =
     (if counter mod 2 = 0 then
        and_then (read_heap vector (counter div 2 + cutoff)) (\<lambda>lower.
        and_then (read_heap vector (counter div 2 + cutoff + 1)) (\<lambda>upper.
        Inr (dbl_mul (Finite (1 / 2)) (dbl_add lower upper))))
      else
        and_then (c_int (counter + 1)) (\<lambda>counter1.
        read_heap vector (counter1 div 2 + cutoff)))"

definition regression_slope :: "real list \<Rightarrow> real list \<Rightarrow> nat \<Rightarrow> dbl checked" where
  "regression_slope pDivergent pAllConvergent numBranchPairs =
     and_then (count_slopes pDivergent pAllConvergent numBranchPairs) (\<lambda>counter.
     and_then (collect_slopes pDivergent pAllConvergent numBranchPairs) (\<lambda>vector.
       let sorted_vector = qsort vector cmpfunc;
           cutoff = cutoff_scan 0 sorted_vector
       in median_slope sorted_vector counter cutoff))"

text \<open>The intercept \<open>b\<close>: \<open>temp[i] = pAllConvergent[i] - k * pDivergent[i]\<close>, sorted, and its
  middle taken.\<close>

definition regression_intercept :: "dbl \<Rightarrow> real list \<Rightarrow> real list \<Rightarrow> nat \<Rightarrow> dbl checked" where
  "regression_intercept k pDivergent pAllConvergent numBranchPairs =
     (let temp = map (\<lambda>i. dbl_sub (Finite (pAllConvergent ! i)) (dbl_mul k (Finite (pDivergent ! i))))
                   [0..<numBranchPairs];
          sorted_temp = qsort temp cmpfunc
      in if numBranchPairs mod 2 = 0 then
           and_then (read_heap sorted_temp (int (numBranchPairs div 2))) (\<lambda>upper.
           and_then (read_heap sorted_temp (int (numBranchPairs div 2) - 1)) (\<lambda>lower.
           Inr (dbl_div (dbl_add upper lower) (Finite 2))))
         else read_heap sorted_temp (int (numBranchPairs div 2)))"

definition calculateRegression :: "real list \<Rightarrow> real list \<Rightarrow> nat \<Rightarrow> (dbl \<times> dbl) checked" where
  "calculateRegression pDivergent pAllConvergent numBranchPairs =
     and_then (regression_slope pDivergent pAllConvergent numBranchPairs) (\<lambda>k.
     and_then (regression_intercept k pDivergent pAllConvergent numBranchPairs) (\<lambda>b.
     Inr (k, b)))"

text \<open>
  The specification's words, for comparison with the code.  The cutoff is "the index of
  the last slope strictly less than -1, or -1 if no such element exists"; the intercept is
  the median of the \<open>t[i]\<close>, "average of two middles if N is even".
\<close>

definition cutoff_spec :: "dbl list \<Rightarrow> int" where
  "cutoff_spec slopes =
     (case filter (\<lambda>i. dbl_less (slopes ! i) (Finite (- 1))) [0..<length slopes] of
        [] \<Rightarrow> - 1
      | i # rest \<Rightarrow> int (last (i # rest)))"

definition median_spec :: "real list \<Rightarrow> real" where
  "median_spec t =
     (let s = sort t; N = length t
      in if N mod 2 = 1 then s ! (N div 2) else (s ! (N div 2 - 1) + s ! (N div 2)) / 2)"


text \<open>The slope set is empty after filtering: no index pair passes the three tests of the
  loop body.\<close>

definition slope_set_empty :: "real list \<Rightarrow> real list \<Rightarrow> nat \<Rightarrow> bool" where
  "slope_set_empty x y N = list_all (\<lambda>p. pair_slope x y p = None) (index_pairs N)"

section \<open>Result emission (\<open>outputDataInJS\<close>, \<open>generateHTML\<close>)\<close>

text \<open>
  The file system is a map from paths to contents; a content is the list of the lines
  read by \<open>fgets\<close> (a template) or of the texts written by the \<open>fprintf\<close> calls (an
  output).  \<open>fopen(path, "r")\<close> fails on a missing file; \<open>fopen(path, "w")\<close> creates the
  file or truncates it (the output directory is taken to be writable).  The source never
  tests a stream for \<open>NULL\<close>, so using a stream that failed to open ends the run.
\<close>

type_synonym file_system = "string \<rightharpoonup> string list"

datatype emit_status = Completed | Crashed

definition fopen_read :: "file_system \<Rightarrow> string \<Rightarrow> bool" where
  "fopen_read fs path = (fs path \<noteq> None)"

definition fopen_write :: "file_system \<Rightarrow> string \<Rightarrow> file_system" where
  "fopen_write fs path = fs(path \<mapsto> [])"

definition fprintf :: "file_system \<Rightarrow> string \<Rightarrow> string list \<Rightarrow> file_system" where
  "fprintf fs path text = fs(path \<mapsto> (case fs path of None \<Rightarrow> text | Some old \<Rightarrow> old @ text))"

text \<open>\<open>strstr(haystack, needle)\<close>: the suffix that starts at the first occurrence.\<close>

fun strstr :: "string \<Rightarrow> string \<Rightarrow> string option" where
  "strstr [] needle = (if needle = [] then Some [] else None)"
| "strstr (c # cs) needle =
     (if take (length needle) (c # cs) = needle then Some (c # cs) else strstr cs needle)"

text \<open>The texts of the \<open>fprintf\<close> calls of \<open>generateHTML\<close>.  \<open>fmt_d\<close> stands for the C
  library's rendering of \<open>%d\<close>.\<close>

definition bar_plot_block :: "(nat \<Rightarrow> string) \<Rightarrow> nat \<Rightarrow> nat \<Rightarrow> string" where
  \<open>bar_plot_block fmt_d b1 b2 =
     ''<div id="BP_'' @ fmt_d b1 @ ''x'' @ fmt_d b2 @ ''-barPlot"></div>\<newline>'' @
     ''<div data-collapse style="float:centre">\<newline>'' @
     [CHR 0x09] @ ''<h4 style="float:centre; margin-left:500px"> Sites <br> Branch Pair: '' @
       fmt_d b1 @ ''..'' @ fmt_d b2 @ '' </h4>\<newline>'' @
     ''<div id="BP_'' @ fmt_d b1 @ ''x'' @ fmt_d b2 @
       ''-sheet" style="float:centre; margin-left:150px; margin-right:150px"></div>\<newline>'' @
     ''</div><br>\<newline>\<newline>''\<close>

definition pairs_missing_note :: string where
  \<open>pairs_missing_note =
     ''<h4 style="float:left; margin-left:70px"> Branch Pairs must be provided for this plot '' @
     ''(see the <i>--branch-pairs</i> parameter)</h4>''\<close>

definition figure_block :: "(nat \<Rightarrow> string) \<Rightarrow> nat \<Rightarrow> nat \<Rightarrow> string" where
  \<open>figure_block fmt_d b1 b2 =
     ''<div id="figure" style="float:left; width:550px; z-index:2000; background-color: #ffffff; ">\<newline>'' @
     ''<h4 style="float:left; margin-left:70px"> Branch Pair: '' @ fmt_d b1 @ ''..'' @ fmt_d b2 @
       '' </h4>\<newline>'' @
     ''<div id="BP_'' @ fmt_d b1 @ ''x'' @ fmt_d b2 @
       ''-data-plot" style="margin-left: 10px; float:left; width:540px; outline: 0 !important; border: 0 !important; "></div>\<newline>'' @
     ''</div>\<newline>''\<close>

definition script_tag :: "string \<Rightarrow> string" where
  \<open>script_tag src = ''<script src="'' @ src @ ''"></script>\<newline>''\<close>

definition per_pair :: "(nat \<Rightarrow> nat \<Rightarrow> string) \<Rightarrow> nat list \<Rightarrow> nat \<Rightarrow> string list" where
  "per_pair block selectedBranchPairs numOfSelectedBranchPairs =
     map (\<lambda>i. block (selectedBranchPairs ! (i * 3)) (selectedBranchPairs ! (i * 3 + 1)))
       [0..<numOfSelectedBranchPairs]"

text \<open>What follows a copied template line, according to the markers the line contains.
  \<open>None\<close>: the line has \<open>@dataTag\<close> but \<open>file\<close> has no \<open>User/\<close>, and the source passes
  \<open>NULL + 5\<close> to \<open>%s\<close>.\<close>

definition expand_line ::
  "(nat \<Rightarrow> string) \<Rightarrow> string \<Rightarrow> nat list \<Rightarrow> nat \<Rightarrow> string \<Rightarrow> string list option" where
  "expand_line fmt_d file selectedBranchPairs numOfSelectedBranchPairs line =
     (let after_data_tag =
            (if strstr line ''@dataTag'' = None then Some []
             else case strstr file ''User/'' of
                    None \<Rightarrow> None
                  | Some found \<Rightarrow> Some [script_tag (drop 5 found)]);
          after_table =
            (if strstr line ''@tableAndPlot'' = None then []
             else per_pair (bar_plot_block fmt_d) selectedBranchPairs numOfSelectedBranchPairs
                  @ (if numOfSelectedBranchPairs = 0 then [pairs_missing_note] else []));
          after_rate =
            (if strstr line ''@rateVsDivPlot'' = None then []
             else per_pair (bar_plot_block fmt_d) selectedBranchPairs numOfSelectedBranchPairs);
          after_plot =
            (if strstr line ''@plot'' = None then []
             else per_pair (figure_block fmt_d) selectedBranchPairs numOfSelectedBranchPairs
                  @ (if numOfSelectedBranchPairs = 0 then [pairs_missing_note] else []))
      in case after_data_tag of
           None \<Rightarrow> None
         | Some tag \<Rightarrow> Some (tag @ after_table @ after_rate @ after_plot))"

fun copy_template ::
  "(nat \<Rightarrow> string) \<Rightarrow> string \<Rightarrow> nat list \<Rightarrow> nat \<Rightarrow> string \<Rightarrow> string list \<Rightarrow> file_system
     \<Rightarrow> emit_status \<times> file_system" where
  "copy_template fmt_d file sel num newHTML [] fs = (Completed, fs)"
| "copy_template fmt_d file sel num newHTML (line # rest) fs =
     (let fs' = fprintf fs newHTML [line]
      in case expand_line fmt_d file sel num line of
           None \<Rightarrow> (Crashed, fs')
         | Some text \<Rightarrow> copy_template fmt_d file sel num newHTML rest (fprintf fs' newHTML text))"

text \<open>\<open>generateHTML\<close>: both streams are opened before the first line is read, so the page
  is truncated even when the template is missing.  \<open>htmlFileName\<close> is the global
  \<open>com.htmlFileName\<close>.\<close>

definition generateHTML ::
  "(nat \<Rightarrow> string) \<Rightarrow> string \<Rightarrow> file_system \<Rightarrow> string \<Rightarrow> string \<Rightarrow> string option \<Rightarrow> nat list \<Rightarrow> nat
     \<Rightarrow> emit_status \<times> file_system" where
  "generateHTML fmt_d htmlFileName fs file templateFile moreFile selectedBranchPairs
       numOfSelectedBranchPairs =
     (let htmlFileNameFullPath =
            ''UI/User/'' @ (case moreFile of None \<Rightarrow> htmlFileName | Some name \<Rightarrow> name);
          template_opened = fopen_read fs templateFile;
          fs' = fopen_write fs htmlFileNameFullPath
      in if template_opened then
           copy_template fmt_d file selectedBranchPairs numOfSelectedBranchPairs
             htmlFileNameFullPath (case fs' templateFile of None \<Rightarrow> [] | Some lines \<Rightarrow> lines) fs'
         else (Crashed, fs'))"

text \<open>The file effects of \<open>outputDataInJS\<close>: the data file is opened for writing at
  \<open>UI/User/<stem>Data.js\<close> and written, then the five pages are generated in turn.  The
  text of the data file is a parameter here.\<close>

definition data_file_path :: "string \<Rightarrow> string option" where
  "data_file_path htmlFileName =
     (if CHR ''.'' \<in> set htmlFileName
      then Some (''UI/User/'' @ takeWhile (\<lambda>c. c \<noteq> CHR ''.'') htmlFileName @ ''Data.js'')
      else None)"

fun generate_pages ::
  "(nat \<Rightarrow> string) \<Rightarrow> string \<Rightarrow> string \<Rightarrow> (string \<times> string option \<times> nat list \<times> nat) list
     \<Rightarrow> file_system \<Rightarrow> emit_status \<times> file_system" where
  "generate_pages fmt_d htmlFileName file [] fs = (Completed, fs)"
| "generate_pages fmt_d htmlFileName file ((templateFile, moreFile, sel, num) # rest) fs =
     (case generateHTML fmt_d htmlFileName fs file templateFile moreFile sel num of
        (Crashed, fs') \<Rightarrow> (Crashed, fs')
      | (Completed, fs') \<Rightarrow> generate_pages fmt_d htmlFileName file rest fs')"

definition outputDataInJS_files ::
  "(nat \<Rightarrow> string) \<Rightarrow> string \<Rightarrow> string list \<Rightarrow> nat list \<Rightarrow> nat \<Rightarrow> file_system
     \<Rightarrow> emit_status \<times> file_system" where
  "outputDataInJS_files fmt_d htmlFileName data_text selectedBranchPairs numOfSelectedBranchPairs fs =
     (case data_file_path htmlFileName of
        None \<Rightarrow> (Crashed, fs)
      | Some file \<Rightarrow>
          generate_pages fmt_d htmlFileName file
            [(''UI/Template.html'', None, [], 0),
             (''UI/sheet-template.html'', Some (''sheet-'' @ htmlFileName), [], 0),
             (''UI/siteSpecific-template.html'', Some (''siteSpecific-'' @ htmlFileName),
                selectedBranchPairs, numOfSelectedBranchPairs),
             (''UI/rateVsDiversity-template.html'', Some (''rateVsDiversity-'' @ htmlFileName), [], 0),
             (''UI/rateVsProbConvergence-template.html'',
                Some (''rateVsProbConvergence-'' @ htmlFileName),
                selectedBranchPairs, numOfSelectedBranchPairs)]
            (fprintf (fopen_write fs file) file data_text))"

text \<open>The final paths of the six artifacts.\<close>

definition output_paths :: "string \<Rightarrow> string set" where
  "output_paths htmlFileName =
     (case data_file_path htmlFileName of None \<Rightarrow> {} | Some file \<Rightarrow> {file})
     \<union> {''UI/User/'' @ htmlFileName,
         ''UI/User/sheet-'' @ htmlFileName,
         ''UI/User/siteSpecific-'' @ htmlFileName,
         ''UI/User/rateVsDiversity-'' @ htmlFileName,
         ''UI/User/rateVsProbConvergence-'' @ htmlFileName}"

section \<open>The site arrays of the data file (\<open>outputDataInJS\<close>, from the opening of the file on)\<close>

text \<open>
  A character buffer obtained from \<open>malloc(cap)\<close> holds a C string of fewer than \<open>cap\<close>
  characters, the last byte being the terminating zero.  \<open>strcpy(buf, text)\<close> is
  \<open>append_text cap [] text\<close>; \<open>strcat(buf, text)\<close> and \<open>sprintf(buf + strlen(buf), ...)\<close>
  are \<open>append_text cap buf text\<close>, \<open>text\<close> being the formatted text.  A text that does not
  fit is written past the end of the block, whose first byte outside is the byte \<open>cap\<close>.
\<close>

definition append_text :: "nat \<Rightarrow> string \<Rightarrow> string \<Rightarrow> string checked" where
  "append_text cap buf text =
     (if length buf + length text < cap then Inr (buf @ text)
      else Inl (HeapOutOfBounds (int cap) cap))"

text \<open>\<open>makeupDataOutput(data, type)\<close> allocates exactly the bytes of its result.\<close>

definition makeupDataOutput :: "string \<Rightarrow> string \<Rightarrow> string" where
  "makeupDataOutput data type = type @ '' = '' @ data"

text \<open>
  \<open>siteSpecificMap\<close> holds, for the selected pair \<open>ig\<close> and the site \<open>h\<close>, the convergence
  value at \<open>ig*lst*2 + h*2\<close> and the divergence value next to it; the index is an \<open>int\<close>
  expression over non-negative operands, whose intermediate results are no larger than
  its value.  Both cells are read for every site, by the test or by the \<open>sprintf\<close> call.
\<close>

definition site_values :: "real list \<Rightarrow> nat \<Rightarrow> nat \<Rightarrow> nat \<Rightarrow> (real \<times> real) checked" where
  "site_values siteSpecificMap lst ig h =
     and_then (int_expr (ig * lst * 2 + h * 2)) (\<lambda>at_conv.
     and_then (read_buffer siteSpecificMap at_conv) (\<lambda>conv.
     and_then (int_expr (at_conv + 1)) (\<lambda>at_div.
     and_then (read_buffer siteSpecificMap at_div) (\<lambda>dv.
     Inr (conv, dv)))))"

text \<open>The text of \<open>[%d, %.6f, %.6f]\<close>; \<open>fmt_6f\<close> stands for the rendering of \<open>%.6f\<close>.\<close>

definition site_triple :: "(nat \<Rightarrow> string) \<Rightarrow> (real \<Rightarrow> string) \<Rightarrow> nat \<Rightarrow> real \<Rightarrow> real \<Rightarrow> string" where
  "site_triple fmt_d fmt_6f h conv dv =
     ''['' @ fmt_d h @ '', '' @ fmt_6f conv @ '', '' @ fmt_6f dv @ '']''"

text \<open>The test and the \<open>sprintf\<close> call for one site; \<open>sep\<close> is what the format has after the
  triple: a comma and a blank in the loop, a blank for the last site.\<close>

definition emit_site ::
  "(nat \<Rightarrow> string) \<Rightarrow> (real \<Rightarrow> string) \<Rightarrow> real list \<Rightarrow> nat \<Rightarrow> nat \<Rightarrow> nat \<Rightarrow> string \<Rightarrow> nat
     \<Rightarrow> string \<Rightarrow> string checked" where
  "emit_site fmt_d fmt_6f siteSpecificMap lst ig cap sep h buf =
     and_then (site_values siteSpecificMap lst ig h) (\<lambda>v.
       if fst v \<noteq> 0 \<or> snd v \<noteq> 0
       then append_text cap buf (site_triple fmt_d fmt_6f h (fst v) (snd v) @ sep)
       else Inr buf)"

text \<open>
  The buffer \<open>siteSpecificBP\<close> of one pair (lines 361 to 369): \<open>lst * 30\<close> bytes, the
  opening bracket, the loop over the sites below \<open>lst - 1\<close>, the statement for the site at
  which the loop has left \<open>h\<close>, and the closing bracket.
\<close>

definition siteSpecificBP ::
  "(nat \<Rightarrow> string) \<Rightarrow> (real \<Rightarrow> string) \<Rightarrow> real list \<Rightarrow> nat \<Rightarrow> nat \<Rightarrow> string checked" where
  "siteSpecificBP fmt_d fmt_6f siteSpecificMap lst ig =
     and_then (int_expr (lst * 30)) (\<lambda>cap.
     and_then (append_text cap [] ''[ '') (\<lambda>opened.
     and_then (for_each [0..<lst - 1] (emit_site fmt_d fmt_6f siteSpecificMap lst ig cap '', '')
                 opened) (\<lambda>looped.
     and_then (emit_site fmt_d fmt_6f siteSpecificMap lst ig cap '' '' (lst - 1) looped) (\<lambda>sites.
     append_text cap sites '']''))))"

text \<open>
  One round of the loop over the selected pairs (lines 360 to 391).  The state is the
  list of the texts written to the data file so far and the three summary buffers.
  \<open>branchPairIDs\<close> has 20 bytes and \<open>branchPairNames\<close> 30.
\<close>

definition branch_pair_step ::
  "(nat \<Rightarrow> string) \<Rightarrow> (real \<Rightarrow> string) \<Rightarrow> real list \<Rightarrow> nat list \<Rightarrow> nat \<Rightarrow> nat
     \<Rightarrow> nat \<Rightarrow> nat \<Rightarrow> nat \<Rightarrow> nat \<Rightarrow> string list \<times> string \<times> string \<times> string
     \<Rightarrow> (string list \<times> string \<times> string \<times> string) checked" where
  \<open>branch_pair_step fmt_d fmt_6f siteSpecificMap selectedBranchPairs numOfSelectedBranchPairs lst
       cap_pairs cap_names cap_ids ig st =
     (case st of (written, siteSpecificBranchPairs, siteSpecificBranchPairsName,
                  siteSpecificBranchPairsIDs) \<Rightarrow>
        and_then (siteSpecificBP fmt_d fmt_6f siteSpecificMap lst ig) (\<lambda>sites.
        and_then (int_expr (ig * 3)) (\<lambda>first.
        and_then (read_buffer selectedBranchPairs first) (\<lambda>b1.
        and_then (int_expr (first + 1)) (\<lambda>second.
        and_then (read_buffer selectedBranchPairs second) (\<lambda>b2.
        and_then (append_text 20 [] (''BP_'' @ fmt_d b1 @ ''x'' @ fmt_d b2)) (\<lambda>branchPairIDs.
        and_then (append_text 30 [] (''"Branch Pair: '' @ fmt_d b1 @ ''..'' @ fmt_d b2 @ ''"''))
          (\<lambda>branchPairNames.
        let written' = written @ [makeupDataOutput sites branchPairIDs @ '';\<newline>''];
            sep = (if ig + 1 < numOfSelectedBranchPairs then '', '' else '' ]'')
        in and_then (append_text cap_pairs siteSpecificBranchPairs (branchPairIDs @ sep)) (\<lambda>pairs'.
           and_then (append_text cap_names siteSpecificBranchPairsName (branchPairNames @ sep))
             (\<lambda>names'.
           and_then (append_text cap_ids siteSpecificBranchPairsIDs
                       (''"'' @ branchPairIDs @ ''"'' @ sep)) (\<lambda>ids'.
           Inr (written', pairs', names', ids'))))))))))))\<close>

text \<open>
  Lines 347 to 402: the three summary buffers, the loop over the selected pairs, and the
  three summary lines.  The result is the list of the texts of the \<open>fprintf\<close> calls, in
  order.
\<close>

definition site_section ::
  "(nat \<Rightarrow> string) \<Rightarrow> (real \<Rightarrow> string) \<Rightarrow> real list \<Rightarrow> nat list \<Rightarrow> nat \<Rightarrow> nat
     \<Rightarrow> string list checked" where
  \<open>site_section fmt_d fmt_6f siteSpecificMap selectedBranchPairs numOfSelectedBranchPairs lst =
     and_then (int_expr (20 * numOfSelectedBranchPairs + 4)) (\<lambda>cap_pairs.
     and_then (int_expr (30 * numOfSelectedBranchPairs + 4)) (\<lambda>cap_names.
     and_then (int_expr (25 * numOfSelectedBranchPairs + 4)) (\<lambda>cap_ids.
     and_then (append_text cap_pairs [] ''[ '') (\<lambda>pairs0.
     and_then (append_text cap_names [] ''[ '') (\<lambda>names0.
     and_then (append_text cap_ids [] ''[ '') (\<lambda>ids0.
     and_then (if numOfSelectedBranchPairs = 0 then append_text cap_pairs pairs0 '']''
               else Inr pairs0) (\<lambda>pairs1.
     and_then (if numOfSelectedBranchPairs = 0 then append_text cap_names names0 '']''
               else Inr names0) (\<lambda>names1.
     and_then (if numOfSelectedBranchPairs = 0 then append_text cap_ids [] ''[ ''
               else Inr ids0) (\<lambda>ids1.
     and_then (for_each [0..<numOfSelectedBranchPairs]
                 (branch_pair_step fmt_d fmt_6f siteSpecificMap selectedBranchPairs
                    numOfSelectedBranchPairs lst cap_pairs cap_names cap_ids)
                 ([], pairs1, names1, ids1)) (\<lambda>st.
       case st of (written, pairs2, names2, ids2) \<Rightarrow>
     and_then (if numOfSelectedBranchPairs = 0 then append_text cap_ids ids2 '']''
               else Inr ids2) (\<lambda>ids3.
     Inr (written @
          [makeupDataOutput pairs2 ''siteSpecificBranchPairs'' @ '';\<newline>'',
           makeupDataOutput names2 ''siteSpecificBranchPairsName'' @ '';\<newline>'',
           makeupDataOutput ids3 ''siteSpecificBranchPairsIDs'' @ '';\<newline>'']))))))))))))\<close>

text \<open>
  \<open>outputDataInJS\<close> from the point where it opens the data file (line 279).  \<open>header\<close> is
  the list of the texts of the \<open>fprintf\<close> calls of lines 307 to 340 (the popup functions,
  the regression coefficients, the two counts, the tree and the point arrays), which the
  function has built from its other arguments before that point and which do not depend
  on \<open>siteSpecificMap\<close>.  A file name without a dot ends the run before the file is
  opened.  After the site section the file is complete, and the five pages are generated.
\<close>

definition outputDataInJS ::
  "(nat \<Rightarrow> string) \<Rightarrow> (real \<Rightarrow> string) \<Rightarrow> string \<Rightarrow> string list \<Rightarrow> real list \<Rightarrow> nat list
     \<Rightarrow> nat \<Rightarrow> nat \<Rightarrow> file_system \<Rightarrow> (emit_status \<times> file_system) checked" where
  "outputDataInJS fmt_d fmt_6f htmlFileName header siteSpecificMap selectedBranchPairs
       numOfSelectedBranchPairs lst fs =
     (case data_file_path htmlFileName of
        None \<Rightarrow> Inr (Crashed, fs)
      | Some dataFile \<Rightarrow>
          and_then (site_section fmt_d fmt_6f siteSpecificMap selectedBranchPairs
                      numOfSelectedBranchPairs lst) (\<lambda>site_texts.
          Inr (outputDataInJS_files fmt_d htmlFileName (header @ site_texts)
                 selectedBranchPairs numOfSelectedBranchPairs fs)))"

text \<open>
  For comparison with the code, the site array of a pair as the claim describes it: the
  opening bracket, one triple \<open>[h, conv, div]\<close> for each site \<open>h < lst\<close> whose \<open>conv\<close> or
  \<open>div\<close> is not zero, in the order of the sites, and the closing bracket.  A triple is
  followed by a comma and a blank, the one of the site \<open>lst - 1\<close> by a blank.
\<close>

definition claimed_site_array ::
  "(nat \<Rightarrow> string) \<Rightarrow> (real \<Rightarrow> string) \<Rightarrow> real list \<Rightarrow> nat \<Rightarrow> nat \<Rightarrow> string" where
  "claimed_site_array fmt_d fmt_6f siteSpecificMap lst ig =
     ''[ '' @
     concat (map (\<lambda>h. site_triple fmt_d fmt_6f h (siteSpecificMap ! (ig * lst * 2 + h * 2))
                         (siteSpecificMap ! (ig * lst * 2 + h * 2 + 1))
                       @ (if h < lst - 1 then '', '' else '' ''))
               (filter (\<lambda>h. siteSpecificMap ! (ig * lst * 2 + h * 2) \<noteq> 0
                            \<or> siteSpecificMap ! (ig * lst * 2 + h * 2 + 1) \<noteq> 0) [0..<lst]))
     @ '']''"

section \<open>Loops and checked accesses\<close>

lemma and_then_Inr [simp]: "and_then (Inr x) f = f x"
  by (simp add: and_then_def)

lemma and_then_Inl [simp]: "and_then (Inl e) f = Inl e"
  by (simp add: and_then_def)

lemma for_each_append:
  "for_each (xs @ ys) body s = and_then (for_each xs body s) (for_each ys body)"
  by (induction xs arbitrary: s) (auto simp: and_then_def split: sum.splits)

lemma for_each_invariant:
  assumes "I 0 s0"
    and "\<And>i s. i < m \<Longrightarrow> I i s \<Longrightarrow> \<exists>s'. body i s = Inr s' \<and> I (Suc i) s'"
  shows "\<exists>s'. for_each [0..<m] body s0 = Inr s' \<and> I m s'"
  using assms(2)
proof (induction m)
  case 0
  then show ?case using assms(1) by simp
next
  case (Suc m)
  then obtain s1 where s1: "for_each [0..<m] body s0 = Inr s1" "I m s1"
    by (metis less_Suc_eq)
  from Suc.prems [of m s1] s1(2) obtain s2 where "body m s1 = Inr s2" "I (Suc m) s2"
    by auto
  then show ?case
    using s1 by (simp add: for_each_append)
qed

lemma read_buffer_ok [simp]: "i < length buf \<Longrightarrow> read_buffer buf i = Inr (buf ! i)"
  by (simp add: read_buffer_def)

lemma read_local_ok [simp]: "k < length a \<Longrightarrow> read_local a k = Inr (a ! k)"
  by (simp add: read_local_def)

lemma write_local_ok [simp]: "k < length a \<Longrightarrow> write_local a k v = Inr (a[k := v])"
  by (simp add: write_local_def)

lemma init_loop:
  "for_each [0..<20] (\<lambda>k a. write_local a k 0) (local_array 20) = Inr (map (\<lambda>k. 0) [0..<20])"
proof -
  define I where "I = (\<lambda>(i::nat) (a::real list). length a = 20 \<and> (\<forall>k<i. a ! k = 0))"
  have "\<exists>s'. for_each [0..<20] (\<lambda>k a. write_local a k 0) (local_array 20) = Inr s' \<and> I 20 s'"
  proof (rule for_each_invariant)
    show "I 0 (local_array 20)" by (simp add: I_def local_array_def)
  next
    fix i s assume "i < (20::nat)" "I i s"
    then show "\<exists>s'. write_local s i 0 = Inr s' \<and> I (Suc i) s'"
      by (auto simp: I_def nth_list_update less_Suc_eq)
  qed
  then obtain s' where s': "for_each [0..<20] (\<lambda>k a. write_local a k 0) (local_array 20) = Inr s'"
    "length s' = 20" "\<forall>k<20. s' ! k = 0"
    by (auto simp: I_def)
  have "s' = map (\<lambda>k. 0) [0..<20]"
    by (rule nth_equalityI) (use s' in auto)
  then show ?thesis using s' by simp
qed

section \<open>The CUDA loops compute the specified sums\<close>

lemma matrix_index_bound: "j < n \<Longrightarrow> k < n \<Longrightarrow> j * n + k < n * (n::nat)"
proof -
  assume "j < n" "k < n"
  then have "Suc j * n \<le> n * n" by (simp add: Suc_leI mult_le_mono1 del: mult_Suc)
  with \<open>k < n\<close> show ?thesis by simp
qed

lemma cuda_colsum_inner:
  assumes len: "length c = 20" and n: "L \<le> 20"
    and rng: "\<And>k. k < L \<Longrightarrow> P2 + j * n + k < length conP"
  shows "\<exists>c'. for_each [0..<L] (cuda_colsum_step conP P2 n j) (c, s)
            = Inr (c', s + (\<Sum>k<L. entry conP P2 n j k))
          \<and> length c' = 20
          \<and> (\<forall>k<20. c' ! k = (if k < L then c ! k + entry conP P2 n j k else c ! k))"
proof -
  define I where "I = (\<lambda>(i::nat) (st :: real list \<times> real).
     length (fst st) = 20 \<and> snd st = s + (\<Sum>k<i. entry conP P2 n j k)
     \<and> (\<forall>k<20. fst st ! k = (if k < i then c ! k + entry conP P2 n j k else c ! k)))"
  have "\<exists>s'. for_each [0..<L] (cuda_colsum_step conP P2 n j) (c, s) = Inr s' \<and> I L s'"
  proof (rule for_each_invariant)
    show "I 0 (c, s)" by (simp add: I_def len)
  next
    fix i st assume i: "i < L" and inv: "I i st"
    obtain a t where st: "st = (a, t)" by (cases st)
    from i n have i20: "i < 20" by simp
    from inv st have a: "length a = 20" "t = s + (\<Sum>k<i. entry conP P2 n j k)"
      "\<forall>k<20. a ! k = (if k < i then c ! k + entry conP P2 n j k else c ! k)"
      by (simp_all add: I_def)
    have step: "cuda_colsum_step conP P2 n j i st
        = Inr (a[i := a ! i + entry conP P2 n j i], t + entry conP P2 n j i)"
      using rng [OF i] a(1) i20 by (simp add: cuda_colsum_step_def st entry_def)
    have "I (Suc i) (a[i := a ! i + entry conP P2 n j i], t + entry conP P2 n j i)"
      using a i20 by (auto simp: I_def nth_list_update less_Suc_eq)
    with step show "\<exists>s'. cuda_colsum_step conP P2 n j i st = Inr s' \<and> I (Suc i) s'"
      by blast
  qed
  then obtain st where st: "for_each [0..<L] (cuda_colsum_step conP P2 n j) (c, s) = Inr st" "I L st"
    by blast
  obtain c' t where "st = (c', t)" by (cases st)
  with st show ?thesis by (auto simp: I_def)
qed

lemma cuda_colsum_row_ok:
  assumes len: "length c = 20" and n: "n \<le> 20" and j: "j < n"
    and rng: "\<And>k. k < n \<Longrightarrow> P2 + j * n + k < length conP"
  shows "\<exists>c'. cuda_colsum_row conP P2 n j (c, s)
            = Inr (c', s + (\<Sum>k<n. entry conP P2 n j k) - entry conP P2 n j j)
          \<and> length c' = 20
          \<and> (\<forall>k<20. c' ! k = (if k < n then c ! k + entry conP P2 n j k
                                   - (if k = j then entry conP P2 n j j else 0) else c ! k))"
proof -
  from cuda_colsum_inner [OF len n rng, of s]
  obtain a where a: "for_each [0..<n] (cuda_colsum_step conP P2 n j) (c, s)
            = Inr (a, s + (\<Sum>k<n. entry conP P2 n j k))" "length a = 20"
      "\<forall>k<20. a ! k = (if k < n then c ! k + entry conP P2 n j k else c ! k)"
    by blast
  from j n have j20: "j < 20" by simp
  have "cuda_colsum_row conP P2 n j (c, s)
      = Inr (a[j := a ! j - entry conP P2 n j j],
             s + (\<Sum>k<n. entry conP P2 n j k) - entry conP P2 n j j)"
    using a(1,2) rng [OF j] j20 by (simp add: cuda_colsum_row_def entry_def)
  moreover have "\<forall>k<20. (a[j := a ! j - entry conP P2 n j j]) ! k
       = (if k < n then c ! k + entry conP P2 n j k
                                   - (if k = j then entry conP P2 n j j else 0) else c ! k)"
    using a(2,3) j j20 by (auto simp: nth_list_update)
  ultimately show ?thesis using a(2) by auto
qed

lemma cuda_colsum_all:
  assumes n: "n \<le> 20"
    and rng: "\<And>j k. j < n \<Longrightarrow> k < n \<Longrightarrow> P2 + j * n + k < length conP"
    and len: "length c0 = 20" and zero: "\<forall>k<20. c0 ! k = 0"
  shows "\<exists>c. for_each [0..<n] (cuda_colsum_row conP P2 n) (c0, 0)
            = Inr (c, spec_total (entry conP P2 n) n)
          \<and> length c = 20
          \<and> (\<forall>k<n. c ! k = spec_sumcK (entry conP P2 n) n k)"
proof -
  let ?E = "entry conP P2 n"
  define I where "I = (\<lambda>(i::nat) (st :: real list \<times> real).
     length (fst st) = 20
     \<and> snd st = (\<Sum>j<i. \<Sum>k<n. ?E j k) - (\<Sum>j<i. ?E j j)
     \<and> (\<forall>k<n. fst st ! k = (\<Sum>j<i. ?E j k) - (if k < i then ?E k k else 0)))"
  have "\<exists>s'. for_each [0..<n] (cuda_colsum_row conP P2 n) (c0, 0) = Inr s' \<and> I n s'"
  proof (rule for_each_invariant)
    show "I 0 (c0, 0)" using len zero n by (simp add: I_def)
  next
    fix i st assume i: "i < n" and inv: "I i st"
    obtain a t where st: "st = (a, t)" by (cases st)
    from inv st have a: "length a = 20" "t = (\<Sum>j<i. \<Sum>k<n. ?E j k) - (\<Sum>j<i. ?E j j)"
      "\<forall>k<n. a ! k = (\<Sum>j<i. ?E j k) - (if k < i then ?E k k else 0)"
      by (simp_all add: I_def)
    from cuda_colsum_row_ok [OF a(1) n i, of P2 conP t] rng [OF i]
    obtain a' where a': "cuda_colsum_row conP P2 n i (a, t)
            = Inr (a', t + (\<Sum>k<n. ?E i k) - ?E i i)" "length a' = 20"
      "\<forall>k<20. a' ! k = (if k < n then a ! k + ?E i k
                                   - (if k = i then ?E i i else 0) else a ! k)"
      by blast
    have "I (Suc i) (a', t + (\<Sum>k<n. ?E i k) - ?E i i)"
      using a a'(2,3) n i by (auto simp: I_def less_Suc_eq)
    with a'(1) st show "\<exists>s'. cuda_colsum_row conP P2 n i st = Inr s' \<and> I (Suc i) s'"
      by blast
  qed
  then obtain st where st: "for_each [0..<n] (cuda_colsum_row conP P2 n) (c0, 0) = Inr st" "I n st"
    by blast
  obtain c t where "st = (c, t)" by (cases st)
  with st show ?thesis by (auto simp: I_def spec_total_def spec_sumcK_def)
qed

lemma cuda_sumdK_all:
  assumes n: "n \<le> 20" and len: "length sumcK = 20"
  shows "\<exists>d. for_each [0..<n] (cuda_sumdK_step sumcK sumdforJ) (local_array 20) = Inr d
          \<and> length d = 20 \<and> (\<forall>k<n. d ! k = sumdforJ - sumcK ! k)"
proof -
  define I where "I = (\<lambda>(i::nat) (d :: real list).
     length d = 20 \<and> (\<forall>k<i. d ! k = sumdforJ - sumcK ! k))"
  have "\<exists>s'. for_each [0..<n] (cuda_sumdK_step sumcK sumdforJ) (local_array 20) = Inr s' \<and> I n s'"
  proof (rule for_each_invariant)
    show "I 0 (local_array 20)" by (simp add: I_def local_array_def)
  next
    fix i d assume i: "i < n" and inv: "I i d"
    with n len show "\<exists>s'. cuda_sumdK_step sumcK sumdforJ i d = Inr s' \<and> I (Suc i) s'"
      by (auto simp: I_def cuda_sumdK_step_def nth_list_update less_Suc_eq)
  qed
  then show ?thesis by (auto simp: I_def)
qed

lemma cuda_prob_inner:
  assumes lc: "length sumcK = 20" and ld: "length sumdK = 20" and n: "L \<le> 20"
    and rng: "\<And>k. k < L \<Longrightarrow> P1 + j * n + k < length conP"
  shows "for_each [0..<L] (cuda_prob_step conP P1 n sumcK sumdK j) (pc, pd)
          = Inr (pc + (\<Sum>k<L. sumcK ! k * entry conP P1 n j k),
                 pd + (\<Sum>k<L. sumdK ! k * entry conP P1 n j k))"
proof -
  define I where "I = (\<lambda>(i::nat) (st :: real \<times> real).
     st = (pc + (\<Sum>k<i. sumcK ! k * entry conP P1 n j k),
           pd + (\<Sum>k<i. sumdK ! k * entry conP P1 n j k)))"
  have "\<exists>s'. for_each [0..<L] (cuda_prob_step conP P1 n sumcK sumdK j) (pc, pd) = Inr s' \<and> I L s'"
  proof (rule for_each_invariant)
    show "I 0 (pc, pd)" by (simp add: I_def)
  next
    fix i st assume i: "i < L" and inv: "I i st"
    with n lc ld rng [OF i]
    show "\<exists>s'. cuda_prob_step conP P1 n sumcK sumdK j i st = Inr s' \<and> I (Suc i) s'"
      by (simp add: I_def cuda_prob_step_def entry_def)
  qed
  then show ?thesis by (auto simp: I_def)
qed

lemma cuda_prob_all:
  assumes lc: "length sumcK = 20" and ld: "length sumdK = 20" and n: "n \<le> 20"
    and rng: "\<And>j k. j < n \<Longrightarrow> k < n \<Longrightarrow> P1 + j * n + k < length conP"
  shows "for_each [0..<n] (cuda_prob_row conP P1 n sumcK sumdK) (0, 0)
          = Inr ((\<Sum>j<n. (\<Sum>k<n. sumcK ! k * entry conP P1 n j k) - sumcK ! j * entry conP P1 n j j),
                 (\<Sum>j<n. (\<Sum>k<n. sumdK ! k * entry conP P1 n j k) - sumdK ! j * entry conP P1 n j j))"
proof -
  let ?E = "entry conP P1 n"
  define I where "I = (\<lambda>(i::nat) (st :: real \<times> real).
     st = ((\<Sum>j<i. (\<Sum>k<n. sumcK ! k * ?E j k) - sumcK ! j * ?E j j),
           (\<Sum>j<i. (\<Sum>k<n. sumdK ! k * ?E j k) - sumdK ! j * ?E j j)))"
  have "\<exists>s'. for_each [0..<n] (cuda_prob_row conP P1 n sumcK sumdK) (0, 0) = Inr s' \<and> I n s'"
  proof (rule for_each_invariant)
    show "I 0 (0, 0)" by (simp add: I_def)
  next
    fix i st assume i: "i < n" and inv: "I i st"
    obtain pc pd where st: "st = (pc, pd)" by (cases st)
    have "cuda_prob_row conP P1 n sumcK sumdK i (pc, pd)
        = Inr (pc + (\<Sum>k<n. sumcK ! k * ?E i k) - sumcK ! i * ?E i i,
               pd + (\<Sum>k<n. sumdK ! k * ?E i k) - sumdK ! i * ?E i i)"
      using cuda_prob_inner [OF lc ld n rng [OF i], of pc pd] rng [OF i i] i n lc ld
      by (simp add: cuda_prob_row_def entry_def)
    with inv st show "\<exists>s'. cuda_prob_row conP P1 n sumcK sumdK i st = Inr s' \<and> I (Suc i) s'"
      by (simp add: I_def)
  qed
  then show ?thesis by (auto simp: I_def)
qed

lemma cuda_site_reduction_spec:
  assumes n: "n \<le> 20"
    and rng1: "P1 + n * n \<le> length conP" and rng2: "P2 + n * n \<le> length conP"
  shows "cuda_site_reduction conP P1 P2 n
          = Inr (spec_probC (entry conP P1 n) (entry conP P2 n) n,
                 spec_probD (entry conP P1 n) (entry conP P2 n) n)"
proof -
  let ?E1 = "entry conP P1 n" and ?E2 = "entry conP P2 n"
  have r1: "\<And>j k. j < n \<Longrightarrow> k < n \<Longrightarrow> P1 + j * n + k < length conP"
    using matrix_index_bound [of _ n] rng1 by fastforce
  have r2: "\<And>j k. j < n \<Longrightarrow> k < n \<Longrightarrow> P2 + j * n + k < length conP"
    using matrix_index_bound [of _ n] rng2 by fastforce
  obtain c where c: "for_each [0..<n] (cuda_colsum_row conP P2 n) (map (\<lambda>k. 0) [0..<20], 0)
            = Inr (c, spec_total ?E2 n)" "length c = 20"
      "\<forall>k<n. c ! k = spec_sumcK ?E2 n k"
    using cuda_colsum_all [OF n r2, of "map (\<lambda>k. 0) [0..<20]"] by auto
  obtain d where d: "for_each [0..<n] (cuda_sumdK_step c (spec_total ?E2 n)) (local_array 20) = Inr d"
      "length d = 20" "\<forall>k<n. d ! k = spec_total ?E2 n - c ! k"
    using cuda_sumdK_all [OF n c(2)] by blast
  have dk: "\<forall>k<n. d ! k = spec_sumdK ?E2 n k"
    using d(3) c(3) by (simp add: spec_sumdK_def)
  have "cuda_site_reduction conP P1 P2 n
      = Inr ((\<Sum>j<n. (\<Sum>k<n. c ! k * ?E1 j k) - c ! j * ?E1 j j),
             (\<Sum>j<n. (\<Sum>k<n. d ! k * ?E1 j k) - d ! j * ?E1 j j))"
    using c(1) d(1) cuda_prob_all [OF c(2) d(2) n r1]
    by (simp add: cuda_site_reduction_def init_loop)
  also have "(\<Sum>j<n. (\<Sum>k<n. c ! k * ?E1 j k) - c ! j * ?E1 j j) = spec_probC ?E1 ?E2 n"
    using c(3) by (simp add: spec_probC_def sum_subtractf)
  also have "(\<Sum>j<n. (\<Sum>k<n. d ! k * ?E1 j k) - d ! j * ?E1 j j) = spec_probD ?E1 ?E2 n"
    using dk by (simp add: spec_probD_def sum_subtractf)
  finally show ?thesis .
qed

section \<open>The Metal loops compute the sums over a 20 by 20 view\<close>

lemma metal_colsum_step_eq: "metal_colsum_step = cuda_colsum_step"
  by (intro ext) (simp add: metal_colsum_step_def cuda_colsum_step_def)

lemma metal_sumdK_step_eq: "metal_sumdK_step = cuda_sumdK_step"
  by (intro ext) (simp add: metal_sumdK_step_def cuda_sumdK_step_def)

lemma metal_prob_step_eq: "metal_prob_step = cuda_prob_step"
  by (intro ext) (simp add: metal_prob_step_def cuda_prob_step_def)

lemma metal_colsum_row_ok:
  assumes len: "length c = 20" and j: "j < 20"
    and rng: "\<And>k. k < 20 \<Longrightarrow> P2 + j * n + k < length conP"
  shows "\<exists>c'. metal_colsum_row conP P2 n j (c, s)
            = Inr (c', s + ((\<Sum>k<20. entry conP P2 n j k) - entry conP P2 n j j))
          \<and> length c' = 20
          \<and> (\<forall>k<20. c' ! k = c ! k + entry conP P2 n j k
                                   - (if k = j then entry conP P2 n j j else 0))"
proof -
  from cuda_colsum_inner [OF len _ rng, of 20 0]
  obtain a where a: "for_each [0..<20] (cuda_colsum_step conP P2 n j) (c, 0)
            = Inr (a, 0 + (\<Sum>k<20. entry conP P2 n j k))" "length a = 20"
      "\<forall>k<20. a ! k = (if k < 20 then c ! k + entry conP P2 n j k else c ! k)"
    by auto
  have "metal_colsum_row conP P2 n j (c, s)
      = Inr (a[j := a ! j - entry conP P2 n j j],
             s + ((\<Sum>k<20. entry conP P2 n j k) - entry conP P2 n j j))"
    using a(1,2) rng [OF j] j
    by (simp add: metal_colsum_row_def metal_colsum_step_eq entry_def)
  moreover have "\<forall>k<20. (a[j := a ! j - entry conP P2 n j j]) ! k
       = c ! k + entry conP P2 n j k - (if k = j then entry conP P2 n j j else 0)"
    using a(2,3) j by (auto simp: nth_list_update)
  ultimately show ?thesis using a(2) by auto
qed

lemma metal_colsum_all:
  assumes rng: "\<And>j k. j < 20 \<Longrightarrow> k < 20 \<Longrightarrow> P2 + j * n + k < length conP"
    and len: "length c0 = 20" and zero: "\<forall>k<20. c0 ! k = 0"
  shows "\<exists>c. for_each [0..<20] (metal_colsum_row conP P2 n) (c0, 0)
            = Inr (c, spec_total (entry conP P2 n) 20)
          \<and> length c = 20
          \<and> (\<forall>k<20. c ! k = spec_sumcK (entry conP P2 n) 20 k)"
proof -
  let ?E = "entry conP P2 n"
  define I where "I = (\<lambda>(i::nat) (st :: real list \<times> real).
     length (fst st) = 20
     \<and> snd st = (\<Sum>j<i. \<Sum>k<20. ?E j k) - (\<Sum>j<i. ?E j j)
     \<and> (\<forall>k<20. fst st ! k = (\<Sum>j<i. ?E j k) - (if k < i then ?E k k else 0)))"
  have "\<exists>s'. for_each [0..<20] (metal_colsum_row conP P2 n) (c0, 0) = Inr s' \<and> I 20 s'"
  proof (rule for_each_invariant)
    show "I 0 (c0, 0)" using len zero by (simp add: I_def)
  next
    fix i st assume i: "i < (20::nat)" and inv: "I i st"
    obtain a t where st: "st = (a, t)" by (cases st)
    from inv st have a: "length a = 20" "t = (\<Sum>j<i. \<Sum>k<20. ?E j k) - (\<Sum>j<i. ?E j j)"
      "\<forall>k<20. a ! k = (\<Sum>j<i. ?E j k) - (if k < i then ?E k k else 0)"
      by (simp_all add: I_def)
    from metal_colsum_row_ok [OF a(1) i, of P2 n conP t] rng [OF i]
    obtain a' where a': "metal_colsum_row conP P2 n i (a, t)
            = Inr (a', t + ((\<Sum>k<20. ?E i k) - ?E i i))" "length a' = 20"
      "\<forall>k<20. a' ! k = a ! k + ?E i k - (if k = i then ?E i i else 0)"
      by blast
    have "I (Suc i) (a', t + ((\<Sum>k<20. ?E i k) - ?E i i))"
      using a a'(2,3) i by (auto simp: I_def less_Suc_eq)
    with a'(1) st show "\<exists>s'. metal_colsum_row conP P2 n i st = Inr s' \<and> I (Suc i) s'"
      by blast
  qed
  then obtain st where st: "for_each [0..<20] (metal_colsum_row conP P2 n) (c0, 0) = Inr st" "I 20 st"
    by blast
  obtain c t where "st = (c, t)" by (cases st)
  with st show ?thesis by (auto simp: I_def spec_total_def spec_sumcK_def)
qed

lemma metal_prob_all:
  assumes lc: "length sumcK = 20" and ld: "length sumdK = 20"
    and rng: "\<And>j k. j < 20 \<Longrightarrow> k < 20 \<Longrightarrow> P1 + j * n + k < length conP"
  shows "for_each [0..<20] (metal_prob_row conP P1 n sumcK sumdK) (0, 0)
          = Inr ((\<Sum>j<20. (\<Sum>k<20. sumcK ! k * entry conP P1 n j k) - sumcK ! j * entry conP P1 n j j),
                 (\<Sum>j<20. (\<Sum>k<20. sumdK ! k * entry conP P1 n j k) - sumdK ! j * entry conP P1 n j j))"
proof -
  let ?E = "entry conP P1 n"
  define I where "I = (\<lambda>(i::nat) (st :: real \<times> real).
     st = ((\<Sum>j<i. (\<Sum>k<20. sumcK ! k * ?E j k) - sumcK ! j * ?E j j),
           (\<Sum>j<i. (\<Sum>k<20. sumdK ! k * ?E j k) - sumdK ! j * ?E j j)))"
  have "\<exists>s'. for_each [0..<20] (metal_prob_row conP P1 n sumcK sumdK) (0, 0) = Inr s' \<and> I 20 s'"
  proof (rule for_each_invariant)
    show "I 0 (0, 0)" by (simp add: I_def)
  next
    fix i st assume i: "i < (20::nat)" and inv: "I i st"
    obtain pc pd where st: "st = (pc, pd)" by (cases st)
    have "metal_prob_row conP P1 n sumcK sumdK i (pc, pd)
        = Inr (pc + (\<Sum>k<20. sumcK ! k * ?E i k) - sumcK ! i * ?E i i,
               pd + (\<Sum>k<20. sumdK ! k * ?E i k) - sumdK ! i * ?E i i)"
      using cuda_prob_inner [OF lc ld _ rng [OF i], of 20 pc pd] rng [OF i i] i lc ld
      by (simp add: metal_prob_row_def metal_prob_step_eq entry_def)
    with inv st show "\<exists>s'. metal_prob_row conP P1 n sumcK sumdK i st = Inr s' \<and> I (Suc i) s'"
      by (simp add: I_def)
  qed
  then show ?thesis by (auto simp: I_def)
qed

lemma metal_site_reduction_spec:
  assumes r1: "\<And>j k. j < 20 \<Longrightarrow> k < 20 \<Longrightarrow> P1 + j * n + k < length conP"
    and r2: "\<And>j k. j < 20 \<Longrightarrow> k < 20 \<Longrightarrow> P2 + j * n + k < length conP"
  shows "metal_site_reduction conP P1 P2 n
          = Inr (spec_probC (entry conP P1 n) (entry conP P2 n) 20,
                 spec_probD (entry conP P1 n) (entry conP P2 n) 20)"
proof -
  let ?E1 = "entry conP P1 n" and ?E2 = "entry conP P2 n"
  obtain c where c: "for_each [0..<20] (metal_colsum_row conP P2 n) (map (\<lambda>k. 0) [0..<20], 0)
            = Inr (c, spec_total ?E2 20)" "length c = 20"
      "\<forall>k<20. c ! k = spec_sumcK ?E2 20 k"
    using metal_colsum_all [OF r2, of "map (\<lambda>k. 0) [0..<20]"] by auto
  obtain d where d: "for_each [0..<20] (cuda_sumdK_step c (spec_total ?E2 20)) (local_array 20) = Inr d"
      "length d = 20" "\<forall>k<20. d ! k = spec_total ?E2 20 - c ! k"
    using cuda_sumdK_all [OF _ c(2), of 20] by auto
  have dk: "\<forall>k<20. d ! k = spec_sumdK ?E2 20 k"
    using d(3) c(3) by (simp add: spec_sumdK_def)
  have "metal_site_reduction conP P1 P2 n
      = Inr ((\<Sum>j<20. (\<Sum>k<20. c ! k * ?E1 j k) - c ! j * ?E1 j j),
             (\<Sum>j<20. (\<Sum>k<20. d ! k * ?E1 j k) - d ! j * ?E1 j j))"
    using c(1) d(1) metal_prob_all [OF c(2) d(2) r1]
    by (simp add: metal_site_reduction_def init_loop metal_sumdK_step_eq)
  also have "(\<Sum>j<20. (\<Sum>k<20. c ! k * ?E1 j k) - c ! j * ?E1 j j) = spec_probC ?E1 ?E2 20"
    using c(3) by (simp add: spec_probC_def sum_subtractf)
  also have "(\<Sum>j<20. (\<Sum>k<20. d ! k * ?E1 j k) - d ! j * ?E1 j j) = spec_probD ?E1 ?E2 20"
    using dk by (simp add: spec_probD_def sum_subtractf)
  finally show ?thesis .
qed

section \<open>Properties of the specified reduction\<close>

lemma spec_sumcK_cong:
  "(\<And>j k. j < n \<Longrightarrow> k < n \<Longrightarrow> A j k = B j k) \<Longrightarrow> k < n \<Longrightarrow> spec_sumcK A n k = spec_sumcK B n k"
  by (simp add: spec_sumcK_def)

lemma spec_total_cong:
  "(\<And>j k. j < n \<Longrightarrow> k < n \<Longrightarrow> A j k = B j k) \<Longrightarrow> spec_total A n = spec_total B n"
  by (simp add: spec_total_def)

lemma spec_sumdK_cong:
  "(\<And>j k. j < n \<Longrightarrow> k < n \<Longrightarrow> A j k = B j k) \<Longrightarrow> k < n \<Longrightarrow> spec_sumdK A n k = spec_sumdK B n k"
  using spec_sumcK_cong [of n A B k] spec_total_cong [of n A B] by (simp add: spec_sumdK_def)

lemma spec_probC_cong:
  assumes "\<And>j k. j < n \<Longrightarrow> k < n \<Longrightarrow> A1 j k = B1 j k"
    and "\<And>j k. j < n \<Longrightarrow> k < n \<Longrightarrow> A2 j k = B2 j k"
  shows "spec_probC A1 A2 n = spec_probC B1 B2 n"
  using assms(1) spec_sumcK_cong [of n A2 B2, OF assms(2)] by (simp add: spec_probC_def)

lemma spec_probD_cong:
  assumes "\<And>j k. j < n \<Longrightarrow> k < n \<Longrightarrow> A1 j k = B1 j k"
    and "\<And>j k. j < n \<Longrightarrow> k < n \<Longrightarrow> A2 j k = B2 j k"
  shows "spec_probD A1 A2 n = spec_probD B1 B2 n"
  using assms(1) spec_sumdK_cong [of n A2 B2, OF assms(2)] by (simp add: spec_probD_def)

lemma spec_uniform:
  "spec_probC (\<lambda>j k. a) (\<lambda>j k. a) n = real n * (real n - 1) * (real n - 1) * a * a"
  "spec_probD (\<lambda>j k. a) (\<lambda>j k. a) n = real n * (real n - 1) * (real n - 1) * (real n - 1) * a * a"
  by (simp_all add: spec_probC_def spec_probD_def spec_sumdK_def spec_total_def spec_sumcK_def
      algebra_simps)






section \<open>Kernel runs on particular inputs\<close>

lemma write_buffer_ok [simp]: "i < length buf \<Longrightarrow> write_buffer buf i v = Inr (buf[i := v])"
  by (simp add: write_buffer_def)

lemma cuda_uniform:
  assumes n: "n \<le> 20" and rng1: "P1 + n * n \<le> length conP" and rng2: "P2 + n * n \<le> length conP"
    and u: "all_entries (\<lambda>v. v = a) conP"
  shows "cuda_site_reduction conP P1 P2 n
       = Inr (real n * (real n - 1) * (real n - 1) * a * a,
              real n * (real n - 1) * (real n - 1) * (real n - 1) * a * a)"
proof -
  have e: "entry conP P n j k = a" if "P + n * n \<le> length conP" "j < n" "k < n" for P j k
  proof -
    have "P + j * n + k < length conP"
      using matrix_index_bound [OF that(2,3)] that(1) by simp
    then show ?thesis using u by (simp add: entry_def all_entries_def list_all_length)
  qed
  have "spec_probC (entry conP P1 n) (entry conP P2 n) n = spec_probC (\<lambda>j k. a) (\<lambda>j k. a) n"
    by (rule spec_probC_cong) (simp_all add: e rng1 rng2)
  moreover have "spec_probD (entry conP P1 n) (entry conP P2 n) n = spec_probD (\<lambda>j k. a) (\<lambda>j k. a) n"
    by (rule spec_probD_cong) (simp_all add: e rng1 rng2)
  ultimately show ?thesis
    using cuda_site_reduction_spec [OF n rng1 rng2] by (simp add: spec_uniform)
qed

lemma metal_uniform:
  assumes rng1: "P1 + 19 * n + 20 \<le> length conP" and rng2: "P2 + 19 * n + 20 \<le> length conP"
    and u: "all_entries (\<lambda>v. v = a) conP"
  shows "metal_site_reduction conP P1 P2 n = Inr (7220 * a * a, 137180 * a * a)"
proof -
  have r: "P + j * n + k < length conP" if "P + 19 * n + 20 \<le> length conP" "j < 20" "k < 20" for P j k
  proof -
    from that(2) have "j * n \<le> 19 * n" by (intro mult_le_mono1) simp
    with that show ?thesis by linarith
  qed
  have e: "entry conP P n j k = a" if "P + 19 * n + 20 \<le> length conP" "j < 20" "k < 20" for P j k
    using r [OF that] u by (simp add: entry_def all_entries_def list_all_length)
  have "spec_probC (entry conP P1 n) (entry conP P2 n) 20 = spec_probC (\<lambda>j k. a) (\<lambda>j k. a) 20"
    by (rule spec_probC_cong) (simp_all add: e rng1 rng2)
  moreover have "spec_probD (entry conP P1 n) (entry conP P2 n) 20 = spec_probD (\<lambda>j k. a) (\<lambda>j k. a) 20"
    by (rule spec_probD_cong) (simp_all add: e rng1 rng2)
  ultimately show ?thesis
    using metal_site_reduction_spec [of P1 n conP P2] r [OF rng1] r [OF rng2]
    by (simp add: spec_uniform)
qed

lemma cuda_local_overflow:
  assumes n: "20 < n" and rng: "P2 + 20 < length conP"
  shows "cuda_site_reduction conP P1 P2 n = Inl (LocalOutOfBounds 20)"
proof -
  let ?c0 = "map (\<lambda>k. 0::real) [0..<20]"
  have cols: "[0..<n] = [0..<20] @ 20 # [21..<n]"
    using n upt_add_eq_append [of 0 20 "n - 20"] by (simp add: upt_conv_Cons)
  have rows: "[0..<n] = 0 # [1..<n]"
    using n by (simp add: upt_conv_Cons)
  obtain c' where c': "for_each [0..<20] (cuda_colsum_step conP P2 n 0) (?c0, 0)
            = Inr (c', 0 + (\<Sum>k<20. entry conP P2 n 0 k))" "length c' = 20"
    using cuda_colsum_inner [of ?c0 20 P2 0 n conP 0] rng by auto
  have "cuda_colsum_step conP P2 n 0 20 (c', 0 + (\<Sum>k<20. entry conP P2 n 0 k))
      = Inl (LocalOutOfBounds 20)"
    using rng c'(2) by (simp add: cuda_colsum_step_def read_local_def)
  then have "for_each [0..<n] (cuda_colsum_step conP P2 n 0) (?c0, 0) = Inl (LocalOutOfBounds 20)"
    using c'(1) by (simp add: cols for_each_append)
  then have "cuda_colsum_row conP P2 n 0 (?c0, 0) = Inl (LocalOutOfBounds 20)"
    by (simp add: cuda_colsum_row_def)
  then have "for_each [0..<n] (cuda_colsum_row conP P2 n) (?c0, 0) = Inl (LocalOutOfBounds 20)"
    by (simp add: rows)
  then show ?thesis
    by (simp add: cuda_site_reduction_def init_loop)
qed

lemma metal_reads_past_buffer:
  assumes lo: "P2 < length conP" and hi: "length conP < P2 + 20"
  shows "metal_site_reduction conP P1 P2 n = Inl (BufferOutOfBounds (length conP))"
proof -
  let ?c0 = "map (\<lambda>k. 0::real) [0..<20]"
  define k0 where "k0 = length conP - P2"
  have k0: "0 < k0" "k0 < 20" "P2 + k0 = length conP" using lo hi by (simp_all add: k0_def)
  have cols: "[0..<20] = [0..<k0] @ k0 # [Suc k0..<20]"
    using k0 upt_add_eq_append [of 0 k0 "20 - k0"] by (simp add: upt_conv_Cons)
  have rows: "[0..<20] = 0 # [1..<20]"
    by (simp add: upt_conv_Cons)
  obtain c' where c': "for_each [0..<k0] (cuda_colsum_step conP P2 n 0) (?c0, 0)
            = Inr (c', 0 + (\<Sum>k<k0. entry conP P2 n 0 k))" "length c' = 20"
    using cuda_colsum_inner [of ?c0 k0 P2 0 n conP 0] k0 by auto
  have "cuda_colsum_step conP P2 n 0 k0 (c', 0 + (\<Sum>k<k0. entry conP P2 n 0 k))
      = Inl (BufferOutOfBounds (length conP))"
    using k0 by (simp add: cuda_colsum_step_def read_buffer_def)
  then have "for_each [0..<20] (cuda_colsum_step conP P2 n 0) (?c0, 0)
      = Inl (BufferOutOfBounds (length conP))"
    using c'(1) by (subst cols) (simp add: for_each_append)
  then have "metal_colsum_row conP P2 n 0 (?c0, 0) = Inl (BufferOutOfBounds (length conP))"
    using lo by (simp add: metal_colsum_row_def metal_colsum_step_eq)
  then have "for_each [0..<20] (metal_colsum_row conP P2 n) (?c0, 0)
      = Inl (BufferOutOfBounds (length conP))"
    by (subst rows) simp
  then show ?thesis
    by (simp add: metal_site_reduction_def init_loop)
qed

lemma int_expr_ok [simp]: "v < 2 ^ 31 \<Longrightarrow> int_expr v = Inr v"
  by (simp add: int_expr_def)

lemma int_product_fits:
  assumes "a * n * n < (2::nat) ^ 31"
  shows "a * n < 2 ^ 31"
proof (cases "n = 0")
  case True
  then show ?thesis by simp
next
  case False
  then have "a * n \<le> a * n * n"
    by simp
  with assms show ?thesis by linarith
qed

lemma cuda_kernel_thread:
  assumes "pairIdx < numPairs'" and "siteIdx = blockIdx_y * blockDim_x + threadIdx_x"
    and "siteIdx < numSites'"
    and "pairIdx * 3 + 1 < length nodePairs"
    and "nodePairs ! (pairIdx * 3) < length offsets" and "nodePairs ! (pairIdx * 3 + 1) < length offsets"
    and "cuda_site_reduction conP (offsets ! (nodePairs ! (pairIdx * 3)) + siteIdx * n * n)
           (offsets ! (nodePairs ! (pairIdx * 3 + 1)) + siteIdx * n * n) n = Inr (probC, probD)"
    and "pairIdx * numSites' + siteIdx < length (d_pConvergent out)"
    and "pairIdx * numSites' + siteIdx < length (d_pDivergent out)"
    and "pairIdx * 3 + 1 < 2 ^ 31" and "siteIdx * n * n < 2 ^ 31"
    and "pairIdx * numSites' + siteIdx < 2 ^ 31"
  shows "cuda_convergence_kernel conP offsets nodePairs out numSites' numPairs' n
           pairIdx blockIdx_y blockDim_x threadIdx_x
       = Inr \<lparr>d_pConvergent = (d_pConvergent out)[pairIdx * numSites' + siteIdx := probC],
              d_pDivergent = (d_pDivergent out)[pairIdx * numSites' + siteIdx := probD]\<rparr>"
proof -
  have pair: "pairIdx < 2 ^ 31" "pairIdx * 3 < 2 ^ 31"
    using assms(10) by simp_all
  have site: "siteIdx < 2 ^ 31" "pairIdx * numSites' < 2 ^ 31"
    using assms(12) by simp_all
  then have coord: "(blockIdx_y * blockDim_x + threadIdx_x) mod 2 ^ 32 = siteIdx"
    using assms(2) by simp
  have rows: "siteIdx * n < 2 ^ 31"
    using assms(11) by (rule int_product_fits)
  show ?thesis
    unfolding cuda_convergence_kernel_def coord
    using assms(1,3,4,5,6,7,8,9,10,11,12) pair site rows by simp
qed

lemma singleton_update: "length xs = Suc 0 \<Longrightarrow> xs[0 := x] = [x]"
  by (cases xs) simp_all

lemma cuda_kernel_uniform:
  assumes u: "all_entries (\<lambda>v. v = 1 / 20) conP"
    and iu: "inode < length offsets" and iv: "jnode < length offsets"
    and ru: "offsets ! inode + 400 \<le> length conP" and rv: "offsets ! jnode + 400 \<le> length conP"
    and lc: "length (d_pConvergent out) = 1" and ld: "length (d_pDivergent out) = 1"
  shows "cuda_convergence_kernel conP offsets [inode, jnode, selected] out 1 1 20 0 0 256 0
       = Inr \<lparr>d_pConvergent = [361 / 20], d_pDivergent = [6859 / 20]\<rparr>"
proof -
  have red: "cuda_site_reduction conP (offsets ! inode) (offsets ! jnode) 20
      = Inr (361 / 20, 6859 / 20)"
    using cuda_uniform [of 20 "offsets ! inode" conP "offsets ! jnode" "1 / 20"] u ru rv by simp
  show ?thesis
    using cuda_kernel_thread [of 0 1 0 0 256 0 1 "[inode, jnode, selected]" offsets conP 20
        "361 / 20" "6859 / 20" out] iu iv red lc ld
    by (simp add: singleton_update)
qed

text \<open>At \<open>n = 20\<close> the two kernels return the same pair.\<close>

lemma backends_agree_n20:
  assumes "P1 + 400 \<le> length conP" and "P2 + 400 \<le> length conP"
  shows "metal_site_reduction conP P1 P2 20 = cuda_site_reduction conP P1 P2 20"
proof -
  have "P + j * 20 + k < length conP" if "P + 400 \<le> length conP" "j < 20" "k < 20" for P j k
    using matrix_index_bound [OF that(2,3)] that(1) by simp
  then show ?thesis
    using metal_site_reduction_spec [of P1 20 conP P2] cuda_site_reduction_spec [of 20 P1 conP P2]
      assms by simp
qed

section \<open>The threads store the results of the reduction\<close>

text \<open>With \<open>n = 20\<close> and well-formed buffers, the thread of a work item stores the
  specified \<open>probC\<close> and \<open>probD\<close> of its pair and site at \<open>pairIdx * numSites + siteIdx\<close>:
  lemma \<open>cuda_thread_output_n20\<close> for a CUDA thread, lemma \<open>metal_thread_output_n20\<close> for
  each of the sites that a Metal thread handles.\<close>

lemma fold_store_lengths:
  "length (d_pConvergent (fold (\<lambda>s out. \<lparr>d_pConvergent = (d_pConvergent out)[idx s := C s],
                                      d_pDivergent = (d_pDivergent out)[idx s := D s]\<rparr>) ss out))
     = length (d_pConvergent out)
   \<and> length (d_pDivergent (fold (\<lambda>s out. \<lparr>d_pConvergent = (d_pConvergent out)[idx s := C s],
                                      d_pDivergent = (d_pDivergent out)[idx s := D s]\<rparr>) ss out))
     = length (d_pDivergent out)"
  by (induction ss arbitrary: out) simp_all

lemma fold_store_other:
  assumes "\<And>s. s \<in> set ss \<Longrightarrow> idx s \<noteq> i"
  shows "d_pConvergent (fold (\<lambda>s out. \<lparr>d_pConvergent = (d_pConvergent out)[idx s := C s],
                                      d_pDivergent = (d_pDivergent out)[idx s := D s]\<rparr>) ss out) ! i
           = d_pConvergent out ! i
       \<and> d_pDivergent (fold (\<lambda>s out. \<lparr>d_pConvergent = (d_pConvergent out)[idx s := C s],
                                      d_pDivergent = (d_pDivergent out)[idx s := D s]\<rparr>) ss out) ! i
           = d_pDivergent out ! i"
  using assms by (induction ss arbitrary: out) simp_all

lemma fold_store_cell:
  assumes "s0 \<in> set ss" and "distinct ss" and "inj_on idx (set ss)"
    and "idx s0 < length (d_pConvergent out)" and "idx s0 < length (d_pDivergent out)"
  shows "d_pConvergent (fold (\<lambda>s out. \<lparr>d_pConvergent = (d_pConvergent out)[idx s := C s],
                                      d_pDivergent = (d_pDivergent out)[idx s := D s]\<rparr>) ss out) ! idx s0
           = C s0
       \<and> d_pDivergent (fold (\<lambda>s out. \<lparr>d_pConvergent = (d_pConvergent out)[idx s := C s],
                                      d_pDivergent = (d_pDivergent out)[idx s := D s]\<rparr>) ss out) ! idx s0
           = D s0"
  using assms
proof (induction ss arbitrary: out)
  case Nil
  then show ?case by simp
next
  case (Cons s ss)
  let ?out1 = "\<lparr>d_pConvergent = (d_pConvergent out)[idx s := C s],
                d_pDivergent = (d_pDivergent out)[idx s := D s]\<rparr>"
  show ?case
  proof (cases "s = s0")
    case True
    have "idx t \<noteq> idx s0" if "t \<in> set ss" for t
      using Cons.prems(2,3) True that by (auto simp: inj_on_def)
    then show ?thesis
      using fold_store_other [of ss idx "idx s0" C D ?out1] Cons.prems(4,5) True by simp
  next
    case False
    with Cons.prems have "s0 \<in> set ss" "distinct ss" "inj_on idx (set ss)"
      "idx s0 < length (d_pConvergent ?out1)" "idx s0 < length (d_pDivergent ?out1)"
      by simp_all
    then show ?thesis
      using Cons.IH [of ?out1] by simp
  qed
qed

lemma metal_sites_loop_n20:
  assumes n: "state_size params = 20"
    and rng: "\<And>s. threadSiteBase + s < numSites params \<Longrightarrow>
               offset1 + (threadSiteBase + s) * 400 + 400 \<le> length conP
             \<and> offset2 + (threadSiteBase + s) * 400 + 400 \<le> length conP
             \<and> pairIdx * numSites params + (threadSiteBase + s) < lenC
             \<and> pairIdx * numSites params + (threadSiteBase + s) < lenD"
    and fits: "numSites params * 400 < 2 ^ 31" "(pairIdx + 1) * numSites params < 2 ^ 31"
    and start: "threadSiteBase + a \<le> numSites params"
    and len: "length (d_pConvergent out) = lenC" "length (d_pDivergent out) = lenD"
  shows "metal_sites_loop conP offset1 offset2 params 400 pairIdx threadSiteBase [a..<b] out
       = Inr (fold (\<lambda>s out.
                \<lparr>d_pConvergent = (d_pConvergent out)
                   [pairIdx * numSites params + (threadSiteBase + s) :=
                      spec_probC (entry conP (offset1 + (threadSiteBase + s) * 400) 20)
                                 (entry conP (offset2 + (threadSiteBase + s) * 400) 20) 20],
                 d_pDivergent = (d_pDivergent out)
                   [pairIdx * numSites params + (threadSiteBase + s) :=
                      spec_probD (entry conP (offset1 + (threadSiteBase + s) * 400) 20)
                                 (entry conP (offset2 + (threadSiteBase + s) * 400) 20) 20]\<rparr>)
              (takeWhile (\<lambda>s. threadSiteBase + s < numSites params) [a..<b]) out)"
  using start len
proof (induction "b - a" arbitrary: a out)
  case 0
  then show ?case by simp
next
  case (Suc m)
  then have cons: "[a..<b] = a # [Suc a..<b]"
    by (simp add: upt_conv_Cons)
  have sites: "numSites params < 2 ^ 31"
    using fits(1) by simp
  let ?site = "threadSiteBase + a"
  have site: "?site < 2 ^ 31"
    using Suc.prems(1) sites by simp
  show ?case
  proof (cases "?site < numSites params")
    case False
    then show ?thesis
      using site by (simp add: cons)
  next
    case True
    let ?C = "spec_probC (entry conP (offset1 + ?site * 400) 20) (entry conP (offset2 + ?site * 400) 20) 20"
    let ?D = "spec_probD (entry conP (offset1 + ?site * 400) 20) (entry conP (offset2 + ?site * 400) 20) 20"
    let ?out1 = "\<lparr>d_pConvergent = (d_pConvergent out)[pairIdx * numSites params + ?site := ?C],
                  d_pDivergent = (d_pDivergent out)[pairIdx * numSites params + ?site := ?D]\<rparr>"
    from rng [of a] True Suc.prems(2,3) have r:
      "offset1 + ?site * 400 + 400 \<le> length conP" "offset2 + ?site * 400 + 400 \<le> length conP"
      "pairIdx * numSites params + ?site < length (d_pConvergent out)"
      "pairIdx * numSites params + ?site < length (d_pDivergent out)"
      by simp_all
    have red: "metal_site_reduction conP (offset1 + ?site * 400) (offset2 + ?site * 400) 20 = Inr (?C, ?D)"
      using backends_agree_n20 [of "offset1 + ?site * 400" conP "offset2 + ?site * 400"]
        cuda_site_reduction_spec [of 20 "offset1 + ?site * 400" conP "offset2 + ?site * 400"] r(1,2)
      by simp
    have f1: "?site * 400 < 2 ^ 31"
      using True fits(1) by simp
    have f2: "pairIdx * numSites params < 2 ^ 31" "pairIdx * numSites params + ?site < 2 ^ 31"
      using True fits(2) by simp_all
    have step: "metal_sites_loop conP offset1 offset2 params 400 pairIdx threadSiteBase (a # [Suc a..<b]) out
        = metal_sites_loop conP offset1 offset2 params 400 pairIdx threadSiteBase [Suc a..<b] ?out1"
      using True red r(3,4) n site f1 f2 by simp
    have "metal_sites_loop conP offset1 offset2 params 400 pairIdx threadSiteBase [Suc a..<b] ?out1
        = Inr (fold (\<lambda>s out.
                \<lparr>d_pConvergent = (d_pConvergent out)
                   [pairIdx * numSites params + (threadSiteBase + s) :=
                      spec_probC (entry conP (offset1 + (threadSiteBase + s) * 400) 20)
                                 (entry conP (offset2 + (threadSiteBase + s) * 400) 20) 20],
                 d_pDivergent = (d_pDivergent out)
                   [pairIdx * numSites params + (threadSiteBase + s) :=
                      spec_probD (entry conP (offset1 + (threadSiteBase + s) * 400) 20)
                                 (entry conP (offset2 + (threadSiteBase + s) * 400) 20) 20]\<rparr>)
              (takeWhile (\<lambda>s. threadSiteBase + s < numSites params) [Suc a..<b]) ?out1)"
      using Suc.hyps(2) Suc.prems(2,3) True by (intro Suc.hyps(1)) simp_all
    with step True show ?thesis by (simp add: cons)
  qed
qed

lemma output_index_bound:
  "pairIdx < numPairs' \<Longrightarrow> siteIdx < numSites' \<Longrightarrow> pairIdx * numSites' + siteIdx < numPairs' * (numSites'::nat)"
proof -
  assume "pairIdx < numPairs'" "siteIdx < numSites'"
  then have "Suc pairIdx * numSites' \<le> numPairs' * numSites'"
    by (intro mult_le_mono1) simp
  with \<open>siteIdx < numSites'\<close> show ?thesis by simp
qed

lemma site_matrix_bound:
  "siteIdx < numSites' \<Longrightarrow> off + numSites' * 400 \<le> len \<Longrightarrow> off + siteIdx * 400 + 400 \<le> (len::nat)"
proof -
  assume "siteIdx < numSites'" "off + numSites' * 400 \<le> len"
  moreover from \<open>siteIdx < numSites'\<close> have "Suc siteIdx * 400 \<le> numSites' * 400"
    by (intro mult_le_mono1) simp
  ultimately show ?thesis by simp
qed

lemma takeWhile_below_upt: "takeWhile (\<lambda>s. s < m) [0..<S] = [0..<min S m]"
proof (induction S)
  case 0
  then show ?case by simp
next
  case (Suc S)
  show ?case
  proof (cases "S < m")
    case True
    with Suc show ?thesis by (simp add: takeWhile_append min_def)
  next
    case False
    then have "min (Suc S) m = min S m" by simp
    moreover have "takeWhile (\<lambda>s. s < m) ([0..<S] @ [S]) = takeWhile (\<lambda>s. s < m) [0..<S]"
    proof (cases "\<forall>x\<in>set [0..<S]. x < m")
      case True
      then have tw: "takeWhile (\<lambda>s. s < m) [0..<S] = [0..<S]"
        by (simp only: takeWhile_eq_all_conv)
      have "takeWhile (\<lambda>s. s < m) ([0..<S] @ [S]) = [0..<S] @ takeWhile (\<lambda>s. s < m) [S]"
        using True by (simp add: takeWhile_append)
      also have "\<dots> = [0..<S]"
        using \<open>\<not> S < m\<close> by simp
      finally show ?thesis
        by (simp only: tw)
    next
      case False
      then show ?thesis using \<open>\<not> S < m\<close> by (auto simp: takeWhile_append)
    qed
    ultimately show ?thesis using Suc by simp
  qed
qed

lemma cuda_thread_output_n20:
  assumes "pairIdx < numPairs'" and "siteIdx < numSites'"
    and "blockIdx_y * blockDim_x + threadIdx_x = siteIdx"
    and "pairIdx * 3 + 1 < length nodePairs"
    and "nodePairs ! (pairIdx * 3) = u" and "nodePairs ! (pairIdx * 3 + 1) = v"
    and "u < length offsets" and "v < length offsets"
    and "offsets ! u + numSites' * 400 \<le> length conP"
    and "offsets ! v + numSites' * 400 \<le> length conP"
    and "length (d_pConvergent out) = numPairs' * numSites'"
    and "length (d_pDivergent out) = numPairs' * numSites'"
    and "numPairs' * 3 < 2 ^ 31" and "numSites' * 400 < 2 ^ 31"
    and "numPairs' * numSites' < 2 ^ 31"
  shows "cuda_convergence_kernel conP offsets nodePairs out numSites' numPairs' 20
           pairIdx blockIdx_y blockDim_x threadIdx_x
       = Inr \<lparr>d_pConvergent = (d_pConvergent out)[pairIdx * numSites' + siteIdx :=
                 spec_probC (entry conP (offsets ! u + siteIdx * 400) 20)
                            (entry conP (offsets ! v + siteIdx * 400) 20) 20],
              d_pDivergent = (d_pDivergent out)[pairIdx * numSites' + siteIdx :=
                 spec_probD (entry conP (offsets ! u + siteIdx * 400) 20)
                            (entry conP (offsets ! v + siteIdx * 400) 20) 20]\<rparr>"
proof -
  have idx: "pairIdx * numSites' + siteIdx < numPairs' * numSites'"
    using assms(1,2) by (rule output_index_bound)
  have m1: "offsets ! u + siteIdx * 400 + 400 \<le> length conP"
    and m2: "offsets ! v + siteIdx * 400 + 400 \<le> length conP"
    using assms(2,9,10) by (simp_all add: site_matrix_bound)
  have e: "siteIdx * 20 * 20 = siteIdx * 400" by simp
  have "cuda_site_reduction conP (offsets ! u + siteIdx * 400) (offsets ! v + siteIdx * 400) 20
      = Inr (spec_probC (entry conP (offsets ! u + siteIdx * 400) 20)
                        (entry conP (offsets ! v + siteIdx * 400) 20) 20,
             spec_probD (entry conP (offsets ! u + siteIdx * 400) 20)
                        (entry conP (offsets ! v + siteIdx * 400) 20) 20)"
    using cuda_site_reduction_spec [of 20 "offsets ! u + siteIdx * 400" conP "offsets ! v + siteIdx * 400"]
      m1 m2 by simp
  then have red: "cuda_site_reduction conP (offsets ! u + siteIdx * 20 * 20) (offsets ! v + siteIdx * 20 * 20) 20
      = Inr (spec_probC (entry conP (offsets ! u + siteIdx * 400) 20)
                        (entry conP (offsets ! v + siteIdx * 400) 20) 20,
             spec_probD (entry conP (offsets ! u + siteIdx * 400) 20)
                        (entry conP (offsets ! v + siteIdx * 400) 20) 20)"
    unfolding e .
  have f1: "pairIdx * 3 + 1 < 2 ^ 31"
    using assms(1,13) by simp
  have f2: "siteIdx * 20 * 20 < 2 ^ 31"
    using assms(2,14) by simp
  have f3: "pairIdx * numSites' + siteIdx < 2 ^ 31"
    using idx assms(15) by simp
  show ?thesis
    using cuda_kernel_thread [of pairIdx numPairs' siteIdx blockIdx_y blockDim_x threadIdx_x numSites'
        nodePairs offsets conP 20 _ _ out] assms(1-12) idx red f1 f2 f3
    by simp
qed

lemma metal_thread_output_n20:
  assumes "pairIdx < numPairs params" and "siteIdx < numSites params"
    and "state_size params = 20"
    and "gid_y * sitesPerThread params \<le> siteIdx"
    and "siteIdx < gid_y * sitesPerThread params + sitesPerThread params"
    and "pairIdx * 3 + 1 < length nodePairs"
    and "nodePairs ! (pairIdx * 3) = u" and "nodePairs ! (pairIdx * 3 + 1) = v"
    and "u < length offsets" and "v < length offsets"
    and "offsets ! u + numSites params * 400 \<le> length conP"
    and "offsets ! v + numSites params * 400 \<le> length conP"
    and "length (d_pConvergent out) = numPairs params * numSites params"
    and "length (d_pDivergent out) = numPairs params * numSites params"
    and "numPairs params * 3 < 2 ^ 31" and "numSites params * 400 < 2 ^ 31"
    and "numPairs params * numSites params < 2 ^ 31"
  shows "\<exists>out'. metal_convergence_kernel conP offsets nodePairs out params pairIdx gid_y = Inr out'
          \<and> d_pConvergent out' ! (pairIdx * numSites params + siteIdx)
              = spec_probC (entry conP (offsets ! u + siteIdx * 400) 20)
                           (entry conP (offsets ! v + siteIdx * 400) 20) 20
          \<and> d_pDivergent out' ! (pairIdx * numSites params + siteIdx)
              = spec_probD (entry conP (offsets ! u + siteIdx * 400) 20)
                           (entry conP (offsets ! v + siteIdx * 400) 20) 20"
proof -
  let ?base = "gid_y * sitesPerThread params"
  let ?S = "sitesPerThread params"
  let ?idx = "\<lambda>s. pairIdx * numSites params + (?base + s)"
  let ?C = "\<lambda>s. spec_probC (entry conP (offsets ! u + (?base + s) * 400) 20)
                             (entry conP (offsets ! v + (?base + s) * 400) 20) 20"
  let ?D = "\<lambda>s. spec_probD (entry conP (offsets ! u + (?base + s) * 400) 20)
                             (entry conP (offsets ! v + (?base + s) * 400) 20) 20"
  let ?store = "\<lambda>s out. \<lparr>d_pConvergent = (d_pConvergent out)[?idx s := ?C s],
                          d_pDivergent = (d_pDivergent out)[?idx s := ?D s]\<rparr>"
  let ?ss = "takeWhile (\<lambda>s. ?base + s < numSites params) [0..<?S]"
  define s0 where "s0 = siteIdx - ?base"
  have s0: "?base + s0 = siteIdx" "s0 < ?S"
    using assms(4,5) by (simp_all add: s0_def)
  have rng: "offsets ! u + (?base + s) * 400 + 400 \<le> length conP
             \<and> offsets ! v + (?base + s) * 400 + 400 \<le> length conP
             \<and> ?idx s < length (d_pConvergent out) \<and> ?idx s < length (d_pDivergent out)"
    if "?base + s < numSites params" for s
    using that assms(1,11,12,13,14) site_matrix_bound [of "?base + s" "numSites params"]
      output_index_bound [of pairIdx "numSites params" "?base + s" "numSites params"]
      output_index_bound [of pairIdx "numPairs params" "?base + s" "numSites params"]
    by simp
  have "Suc pairIdx * numSites params \<le> numPairs params * numSites params"
    using assms(1) by (intro mult_le_mono1) simp
  then have row: "(pairIdx + 1) * numSites params < 2 ^ 31"
    using assms(17) by simp
  have loop: "metal_sites_loop conP (offsets ! u) (offsets ! v) params 400 pairIdx ?base [0..<?S] out
      = Inr (fold ?store ?ss out)"
    using assms(3) rng assms(16) row
  proof (rule metal_sites_loop_n20)
    show "?base + 0 \<le> numSites params"
      using assms(2,4) by simp
  qed simp_all
  have "(\<lambda>s. ?base + s < numSites params) = (\<lambda>s. s < numSites params - ?base)"
    by (intro ext) auto
  then have ss: "?ss = [0..<min ?S (numSites params - ?base)]"
    by (simp add: takeWhile_below_upt)
  have mem: "s0 \<in> set ?ss"
    unfolding ss using s0 assms(2) by auto
  have "inj_on ?idx (set ?ss)"
    by (simp add: inj_on_def)
  moreover have "distinct ?ss"
    unfolding ss by simp
  ultimately have cell:
    "d_pConvergent (fold ?store ?ss out) ! ?idx s0 = ?C s0
     \<and> d_pDivergent (fold ?store ?ss out) ! ?idx s0 = ?D s0"
    using fold_store_cell [of s0 ?ss ?idx out ?C ?D] mem rng [of s0] s0 assms(2) by simp
  have f1: "pairIdx < 2 ^ 31" "pairIdx * 3 < 2 ^ 31" "pairIdx * 3 + 1 < 2 ^ 31"
    using assms(1,15) by simp_all
  have "?base < 2 ^ 31"
    using assms(2,4,16) by simp
  then have base: "?base mod 2 ^ 32 = ?base" "?base < 2 ^ 31"
    by simp_all
  have "metal_convergence_kernel conP offsets nodePairs out params pairIdx gid_y
      = Inr (fold ?store ?ss out)"
    unfolding metal_convergence_kernel_def base(1)
    using assms(1,3,6,7,8,9,10) loop f1 base(2) by simp
  with cell s0 show ?thesis by simp
qed

section \<open>Claims about the kernels\<close>

text \<open>
  \<^bold>\<open>C1.\<close>  Take a work item (pair \<open>pairIdx\<close>, site \<open>siteIdx\<close>) of a launch with \<open>n = 20\<close>
  whose buffers have the sizes that the host gives them and whose index products fit an
  \<open>int\<close>, and let \<open>u\<close> and \<open>v\<close> be the two nodes of the pair in \<open>nodePairs\<close>.  The CUDA
  thread of the work item and the Metal thread whose range of sites contains \<open>siteIdx\<close>
  both store, in the cell \<open>pairIdx * numSites + siteIdx\<close> of the two output arrays, the
  specification's \<open>probC\<close> and \<open>probD\<close> evaluated on the matrix \<open>P1\<close> of node \<open>u\<close> and the
  matrix \<open>P2\<close> of node \<open>v\<close> at that site (exact arithmetic).  The CUDA thread changes no
  other cell.
\<close>

theorem kernel_reduction_n20:
  assumes "pairIdx < numPairs params" and "siteIdx < numSites params"
    and "state_size params = 20"
    and "numPairs params * 3 < 2 ^ 31" and "numSites params * 400 < 2 ^ 31"
    and "numPairs params * numSites params < 2 ^ 31"
    and "length nodePairs = numPairs params * 3"
    and "nodePairs ! (pairIdx * 3) = u" and "nodePairs ! (pairIdx * 3 + 1) = v"
    and "u < length offsets" and "v < length offsets"
    and "offsets ! u + numSites params * 400 \<le> length conP"
    and "offsets ! v + numSites params * 400 \<le> length conP"
    and "length (d_pConvergent out) = numPairs params * numSites params"
    and "length (d_pDivergent out) = numPairs params * numSites params"
    and "blockIdx_y * blockDim_x + threadIdx_x = siteIdx"
    and "gid_y * sitesPerThread params \<le> siteIdx"
    and "siteIdx < gid_y * sitesPerThread params + sitesPerThread params"
  shows "cuda_convergence_kernel conP offsets nodePairs out (numSites params) (numPairs params)
             (state_size params) pairIdx blockIdx_y blockDim_x threadIdx_x
           = Inr \<lparr>d_pConvergent = (d_pConvergent out)[pairIdx * numSites params + siteIdx :=
                     spec_probC (entry conP (offsets ! u + siteIdx * 400) 20)
                                (entry conP (offsets ! v + siteIdx * 400) 20) 20],
                  d_pDivergent = (d_pDivergent out)[pairIdx * numSites params + siteIdx :=
                     spec_probD (entry conP (offsets ! u + siteIdx * 400) 20)
                                (entry conP (offsets ! v + siteIdx * 400) 20) 20]\<rparr>
       \<and> (\<exists>out'. metal_convergence_kernel conP offsets nodePairs out params pairIdx gid_y = Inr out'
             \<and> d_pConvergent out' ! (pairIdx * numSites params + siteIdx)
                 = spec_probC (entry conP (offsets ! u + siteIdx * 400) 20)
                              (entry conP (offsets ! v + siteIdx * 400) 20) 20
             \<and> d_pDivergent out' ! (pairIdx * numSites params + siteIdx)
                 = spec_probD (entry conP (offsets ! u + siteIdx * 400) 20)
                              (entry conP (offsets ! v + siteIdx * 400) 20) 20)"
proof -
  have "Suc pairIdx * 3 \<le> numPairs params * 3"
    using assms(1) by (intro mult_le_mono1) simp
  then have pairs: "pairIdx * 3 + 1 < length nodePairs"
    using assms(7) by simp
  have "cuda_convergence_kernel conP offsets nodePairs out (numSites params) (numPairs params)
             20 pairIdx blockIdx_y blockDim_x threadIdx_x
           = Inr \<lparr>d_pConvergent = (d_pConvergent out)[pairIdx * numSites params + siteIdx :=
                     spec_probC (entry conP (offsets ! u + siteIdx * 400) 20)
                                (entry conP (offsets ! v + siteIdx * 400) 20) 20],
                  d_pDivergent = (d_pDivergent out)[pairIdx * numSites params + siteIdx :=
                     spec_probD (entry conP (offsets ! u + siteIdx * 400) 20)
                                (entry conP (offsets ! v + siteIdx * 400) 20) 20]\<rparr>"
    using assms(1,2,16) pairs assms(8-15) assms(4,5,6) by (rule cuda_thread_output_n20)
  moreover have "\<exists>out'. metal_convergence_kernel conP offsets nodePairs out params pairIdx gid_y = Inr out'
             \<and> d_pConvergent out' ! (pairIdx * numSites params + siteIdx)
                 = spec_probC (entry conP (offsets ! u + siteIdx * 400) 20)
                              (entry conP (offsets ! v + siteIdx * 400) 20) 20
             \<and> d_pDivergent out' ! (pairIdx * numSites params + siteIdx)
                 = spec_probD (entry conP (offsets ! u + siteIdx * 400) 20)
                              (entry conP (offsets ! v + siteIdx * 400) 20) 20"
    using assms(1,2,3,17,18) pairs assms(8-15) assms(4,5,6) by (rule metal_thread_output_n20)
  ultimately show ?thesis
    using assms(3) by simp
qed

text \<open>Witness for C1: two nodes of two sites each with different matrices, one pair, and
  the work item of the second site.\<close>

theorem kernel_reduction_n20_witness:
  "cuda_convergence_kernel (replicate 800 (1 / 20) @ replicate 800 (1 / 40)) [0, 800] [0, 1, 0]
       \<lparr>d_pConvergent = [0, 0], d_pDivergent = [0, 0]\<rparr> 2 1 20 0 0 256 1
     = Inr \<lparr>d_pConvergent = [0, 0][0 * 2 + 1 :=
               spec_probC (entry (replicate 800 (1 / 20) @ replicate 800 (1 / 40)) ([0, 800] ! 0 + 1 * 400) 20)
                          (entry (replicate 800 (1 / 20) @ replicate 800 (1 / 40)) ([0, 800] ! 1 + 1 * 400) 20) 20],
            d_pDivergent = [0, 0][0 * 2 + 1 :=
               spec_probD (entry (replicate 800 (1 / 20) @ replicate 800 (1 / 40)) ([0, 800] ! 0 + 1 * 400) 20)
                          (entry (replicate 800 (1 / 20) @ replicate 800 (1 / 40)) ([0, 800] ! 1 + 1 * 400) 20) 20]\<rparr>
   \<and> (\<exists>out'. metal_convergence_kernel (replicate 800 (1 / 20) @ replicate 800 (1 / 40)) [0, 800] [0, 1, 0]
                \<lparr>d_pConvergent = [0, 0], d_pDivergent = [0, 0]\<rparr>
                \<lparr>numSites = 2, numPairs = 1, state_size = 20, sitesPerThread = 16\<rparr> 0 0 = Inr out'
         \<and> d_pConvergent out' ! (0 * 2 + 1)
             = spec_probC (entry (replicate 800 (1 / 20) @ replicate 800 (1 / 40)) ([0, 800] ! 0 + 1 * 400) 20)
                          (entry (replicate 800 (1 / 20) @ replicate 800 (1 / 40)) ([0, 800] ! 1 + 1 * 400) 20) 20
         \<and> d_pDivergent out' ! (0 * 2 + 1)
             = spec_probD (entry (replicate 800 (1 / 20) @ replicate 800 (1 / 40)) ([0, 800] ! 0 + 1 * 400) 20)
                          (entry (replicate 800 (1 / 20) @ replicate 800 (1 / 40)) ([0, 800] ! 1 + 1 * 400) 20) 20)"
  using kernel_reduction_n20 [where params = "\<lparr>numSites = 2, numPairs = 1, state_size = 20, sitesPerThread = 16\<rparr>"
      and pairIdx = 0 and siteIdx = 1 and nodePairs = "[0, 1, 0]" and u = 0 and v = 1
      and offsets = "[0, 800]" and conP = "replicate 800 (1 / 20) @ replicate 800 (1 / 40)"
      and out = "\<lparr>d_pConvergent = [0, 0], d_pDivergent = [0, 0]\<rparr>"
      and blockIdx_y = 0 and blockDim_x = 256 and threadIdx_x = 1 and gid_y = 0]
  by simp

text \<open>
  \<^bold>\<open>C2 (amended).\<close>  On the uniform input (every entry \<open>1/20\<close>, \<open>n = 20\<close>, one site, one
  pair) the thread of the single work item stores \<open>probC = 361/20 = 18.05\<close> in
  \<open>pConvergent\<close> and \<open>probD = 6859/20 = 342.95\<close> in \<open>pDivergent\<close>.  The values 361 and
  6859 of the specification are twenty times too large.
\<close>

theorem uniform_kernel_outputs:
  assumes "all_entries (\<lambda>v. v = 1 / 20) conP"
    and "inode < length offsets" and "jnode < length offsets"
    and "offsets ! inode + 400 \<le> length conP" and "offsets ! jnode + 400 \<le> length conP"
    and "length (d_pConvergent out) = 1" and "length (d_pDivergent out) = 1"
  shows "cuda_convergence_kernel conP offsets [inode, jnode, selected] out 1 1 20 0 0 256 0
       = Inr \<lparr>d_pConvergent = [361 / 20], d_pDivergent = [6859 / 20]\<rparr>"
  using assms by (rule cuda_kernel_uniform)

text \<open>Witness for C2: three nodes of one site each, the pair of nodes 0 and 1.\<close>

theorem uniform_kernel_outputs_witness:
  "cuda_convergence_kernel (replicate 1200 (1 / 20)) [0, 400, 800, 1200] [0, 1, 0]
      \<lparr>d_pConvergent = [0], d_pDivergent = [0]\<rparr> 1 1 20 0 0 256 0
       = Inr \<lparr>d_pConvergent = [361 / 20], d_pDivergent = [6859 / 20]\<rparr>"
  using uniform_kernel_outputs [of "replicate 1200 (1 / 20)" 0 "[0, 400, 800, 1200]" 1
      "\<lparr>d_pConvergent = [0], d_pDivergent = [0]\<rparr>" 0]
  by (simp add: all_entries_def list_all_length)

text \<open>Counterexample to C2 as stated: on that input the kernel does not store 361 and
  6859.\<close>

theorem uniform_kernel_outputs_counterexample:
  "cuda_convergence_kernel (replicate 1200 (1 / 20)) [0, 400, 800, 1200] [0, 1, 0]
      \<lparr>d_pConvergent = [0], d_pDivergent = [0]\<rparr> 1 1 20 0 0 256 0
       \<noteq> Inr \<lparr>d_pConvergent = [361], d_pDivergent = [6859]\<rparr>"
  using cuda_kernel_uniform [of "replicate 1200 (1 / 20)" 0 "[0, 400, 800, 1200]" 1
      "\<lparr>d_pConvergent = [0], d_pDivergent = [0]\<rparr>" 0]
  by (simp add: all_entries_def list_all_length)




text \<open>
  \<^bold>\<open>C6 (the code at the failing inputs).\<close>  With \<open>n = 61\<close> the CUDA kernel indexes
  \<open>sumcK\<close> at 20, outside the array of 20 cells.  With \<open>n = 4\<close> the Metal kernel reads the
  buffer cell 32 of a buffer that holds exactly the two 4 by 4 matrices of the site
  (cells 0 to 31).  With \<open>n = 61\<close> the Metal kernel reduces only the upper-left 20 by 20
  block: on uniform matrices it returns \<open>7220/3721\<close> where the reduction over the 61 by 61
  matrices is \<open>219600/3721\<close>.
\<close>

theorem kernels_not_generic_in_n:
  "cuda_site_reduction (replicate 7442 (1 / 61)) 0 3721 61 = Inl (LocalOutOfBounds 20)
   \<and> metal_site_reduction (replicate 32 (1 / 4)) 0 16 4 = Inl (BufferOutOfBounds 32)
   \<and> metal_site_reduction (replicate 7442 (1 / 61)) 0 3721 61 = Inr (7220 / 3721, 137180 / 3721)
   \<and> spec_probC (\<lambda>j k. 1 / 61) (\<lambda>j k. 1 / 61) 61 = 219600 / 3721"
  using cuda_local_overflow [of 61 3721 "replicate 7442 (1 / 61)" 0]
    metal_reads_past_buffer [of 16 "replicate 32 (1 / 4)" 0 4]
    metal_uniform [of 0 61 "replicate 7442 (1 / 61)" 3721 "1 / 61"]
    spec_uniform(1) [of "1 / 61" 61]
  by (simp add: all_entries_def list_all_length)

text \<open>
  \<^bold>\<open>C8 (the code at the failing input).\<close>  With \<open>n = 4\<close>, two nodes of six sites each and
  every entry \<open>1/4\<close>, the CUDA kernel and the Metal kernel return different pairs for
  the same work item.
\<close>

theorem backends_disagree_n4:
  "cuda_site_reduction (replicate 192 (1 / 4)) 0 96 4 = Inr (9 / 4, 27 / 4)
   \<and> metal_site_reduction (replicate 192 (1 / 4)) 0 96 4 = Inr (1805 / 4, 34295 / 4)"
  using cuda_uniform [of 4 0 "replicate 192 (1 / 4)" 96 "1 / 4"]
    metal_uniform [of 0 4 "replicate 192 (1 / 4)" 96 "1 / 4"]
  by (simp add: all_entries_def list_all_length)

section \<open>The two passes of the regression agree\<close>

lemma c_int_ok: "- (2 ^ 31) \<le> v \<Longrightarrow> v < 2 ^ 31 \<Longrightarrow> c_int v = Inr v"
  by (simp add: c_int_def)

lemma count_loop_result:
  assumes "0 \<le> counter"
    and "counter + int (length (List.map_filter (pair_slope x y) ps)) < 2 ^ 31"
  shows "count_loop x y ps counter
       = Inr (counter + int (length (List.map_filter (pair_slope x y) ps)))"
  using assms
proof (induction ps arbitrary: counter)
  case Nil
  then show ?case by (simp add: List.map_filter_simps)
next
  case (Cons p ps)
  show ?case
  proof (cases "pair_slope x y p")
    case None
    with Cons show ?thesis by (simp add: List.map_filter_simps)
  next
    case (Some slope)
    with Cons.prems have "c_int (counter + 1) = Inr (counter + 1)"
      by (intro c_int_ok) (simp_all add: List.map_filter_simps)
    moreover have "count_loop x y ps (counter + 1)
        = Inr (counter + 1 + int (length (List.map_filter (pair_slope x y) ps)))"
      using Cons.prems Some by (intro Cons.IH) (simp_all add: List.map_filter_simps)
    ultimately show ?thesis
      using Some by (simp add: List.map_filter_simps)
  qed
qed

lemma count_loop_counts:
  assumes "count_loop x y ps counter = Inr counted" and "0 \<le> counter" and "counter < 2 ^ 31"
  shows "counted = counter + int (length (List.map_filter (pair_slope x y) ps)) \<and> counted < 2 ^ 31"
  using assms
proof (induction ps arbitrary: counter)
  case Nil
  then show ?case by (simp add: List.map_filter_simps)
next
  case (Cons p ps)
  show ?case
  proof (cases "pair_slope x y p")
    case None
    with Cons show ?thesis by (simp add: List.map_filter_simps)
  next
    case (Some slope)
    with Cons.prems(1) have fits: "c_int (counter + 1) = Inr (counter + 1)" "counter + 1 < 2 ^ 31"
      by (auto simp: c_int_def split: if_splits)
    with Cons.prems(1) Some have "count_loop x y ps (counter + 1) = Inr counted"
      by simp
    with Cons.prems(2) fits(2) have "counted = counter + 1 + int (length (List.map_filter (pair_slope x y) ps))
        \<and> counted < 2 ^ 31"
      by (intro Cons.IH) simp_all
    with Some show ?thesis by (simp add: List.map_filter_simps)
  qed
qed

lemma count_slopes_result:
  assumes "length (List.map_filter (pair_slope x y) (index_pairs N)) < 2 ^ 31"
  shows "count_slopes x y N = Inr (int (length (List.map_filter (pair_slope x y) (index_pairs N))))"
  using count_loop_result [of 0 x y "index_pairs N"] assms by (simp add: count_slopes_def)

lemma count_slopes_counts:
  assumes "count_slopes x y N = Inr counter"
  shows "counter = int (length (List.map_filter (pair_slope x y) (index_pairs N)))"
    and "length (List.map_filter (pair_slope x y) (index_pairs N)) < 2 ^ 31"
  using count_loop_counts [of x y "index_pairs N" 0 counter] assms
  by (simp_all add: count_slopes_def)

lemma write_heap_ok:
  "0 \<le> i \<Longrightarrow> nat i < length buf \<Longrightarrow> write_heap buf i v = Inr (buf[nat i := v])"
  by (simp add: write_heap_def)

lemma collect_loop_fills:
  assumes "0 \<le> index"
    and "nat index + length (List.map_filter (pair_slope x y) ps) \<le> length vector"
    and "index + int (length (List.map_filter (pair_slope x y) ps)) < 2 ^ 31"
  shows "collect_loop x y ps (vector, index)
       = Inr (take (nat index) vector @ List.map_filter (pair_slope x y) ps
                @ drop (nat index + length (List.map_filter (pair_slope x y) ps)) vector,
              index + int (length (List.map_filter (pair_slope x y) ps)))"
  using assms
proof (induction ps arbitrary: vector index)
  case Nil
  then show ?case by (simp add: List.map_filter_simps)
next
  case (Cons p ps)
  show ?case
  proof (cases "pair_slope x y p")
    case None
    with Cons show ?thesis by (simp add: List.map_filter_simps)
  next
    case (Some slope)
    let ?rest = "List.map_filter (pair_slope x y) ps"
    from Cons.prems Some have idx: "nat index < length vector"
      and room: "nat (index + 1) + length ?rest \<le> length (vector[nat index := slope])"
      and fits: "index + 1 + int (length ?rest) < 2 ^ 31"
      by (simp_all add: List.map_filter_simps nat_add_distrib)
    have nat_suc: "nat (index + 1) = Suc (nat index)"
      using Cons.prems(1) by simp
    have next_index: "c_int (index + 1) = Inr (index + 1)"
      using Cons.prems(1) fits by (intro c_int_ok) simp_all
    have "collect_loop x y (p # ps) (vector, index)
        = collect_loop x y ps (vector[nat index := slope], index + 1)"
      using Some idx Cons.prems(1) next_index by (simp add: write_heap_ok)
    also have "\<dots> = Inr (take (nat (index + 1)) (vector[nat index := slope]) @ ?rest
                @ drop (nat (index + 1) + length ?rest) (vector[nat index := slope]),
              index + 1 + int (length ?rest))"
      using Cons.IH [of "index + 1" "vector[nat index := slope]"] Cons.prems(1) room fits by simp
    also have "take (nat (index + 1)) (vector[nat index := slope]) = take (nat index) vector @ [slope]"
      using idx by (simp add: nat_suc take_Suc_conv_app_nth)
    also have "drop (nat (index + 1) + length ?rest) (vector[nat index := slope])
        = drop (nat index + length (List.map_filter (pair_slope x y) (p # ps))) vector"
      using Some by (simp add: nat_suc List.map_filter_simps)
    finally show ?thesis
      using Some by (simp add: List.map_filter_simps)
  qed
qed


lemma collect_slopes_result:
  assumes "length (List.map_filter (pair_slope x y) (index_pairs N)) < 2 ^ 31"
  shows "collect_slopes x y N = Inr (List.map_filter (pair_slope x y) (index_pairs N))"
proof -
  let ?slopes = "List.map_filter (pair_slope x y) (index_pairs N)"
  have "collect_loop x y (index_pairs N) (malloc (length ?slopes), 0)
      = Inr (?slopes, int (length ?slopes))"
    using collect_loop_fills [of 0 x y "index_pairs N" "malloc (length ?slopes)"] assms
    by (simp add: malloc_def)
  then show ?thesis
    using count_slopes_result [OF assms] by (simp add: collect_slopes_def)
qed

lemma collect_slopes_collects:
  assumes "collect_slopes x y N = Inr vector"
  shows "vector = List.map_filter (pair_slope x y) (index_pairs N)"
proof -
  from assms obtain counter where c: "count_slopes x y N = Inr counter"
    by (cases "count_slopes x y N") (simp_all add: collect_slopes_def)
  then have "length (List.map_filter (pair_slope x y) (index_pairs N)) < 2 ^ 31"
    by (rule count_slopes_counts)
  then show ?thesis
    using collect_slopes_result [of x y N] assms by simp
qed




lemma slope_set_empty_no_slopes:
  "slope_set_empty x y N \<longleftrightarrow> List.map_filter (pair_slope x y) (index_pairs N) = []"
  by (simp add: slope_set_empty_def List.map_filter_def list_all_iff filter_empty_conv)


lemma empty_slope_set_reads_outside:
  assumes "slope_set_empty x y N"
  shows "calculateRegression x y N = Inl (HeapOutOfBounds 0 0)"
proof -
  from assms have none: "List.map_filter (pair_slope x y) (index_pairs N) = []"
    by (simp add: slope_set_empty_no_slopes)
  then have "count_slopes x y N = Inr 0" "collect_slopes x y N = Inr []"
    using count_slopes_result [of x y N] collect_slopes_result [of x y N] by simp_all
  then have "regression_slope x y N = Inl (HeapOutOfBounds 0 0)"
    unfolding regression_slope_def
    by (simp add: qsort_def median_slope_def read_heap_def)
  then show ?thesis
    by (simp add: calculateRegression_def)
qed

section \<open>Sorting and the intercept\<close>

lemma cmpfunc_finite [simp]: "cmpfunc (Finite a) (Finite b) \<le> 0 \<longleftrightarrow> a \<le> b"
  by (auto simp: cmpfunc_def)

lemma qsort_insert_finite:
  "qsort_insert cmpfunc (Finite a) (map Finite s) = map Finite (insort a s)"
  by (induction s) simp_all

lemma qsort_finite: "qsort (map Finite t) cmpfunc = map Finite (sort t)"
  by (induction t) (simp_all add: qsort_def qsort_insert_finite)

lemma read_heap_ok: "0 \<le> i \<Longrightarrow> nat i < length buf \<Longrightarrow> read_heap buf i = Inr (buf ! nat i)"
  by (simp add: read_heap_def)

lemma intercept_finite:
  assumes N: "1 \<le> N"
  shows "regression_intercept (Finite k) x y N
       = Inr (Finite (median_spec (map (\<lambda>i. y ! i - k * x ! i) [0..<N])))"
proof -
  let ?t = "map (\<lambda>i. y ! i - k * x ! i) [0..<N]"
  have temp: "map (\<lambda>i. dbl_sub (Finite (y ! i)) (dbl_mul (Finite k) (Finite (x ! i)))) [0..<N]
      = map Finite ?t"
    by (simp add: dbl_sub_def)
  have len: "length (sort ?t) = N" by simp
  show ?thesis
  proof (cases "N mod 2 = 0")
    case True
    with N have N2: "2 \<le> N" by presburger
    then have hi: "N div 2 < N" and lo: "nat (int (N div 2) - 1) = N div 2 - 1"
      and lo': "N div 2 - 1 < N" and pos: "0 \<le> int (N div 2) - 1"
      by simp_all
    have "regression_intercept (Finite k) x y N
        = Inr (Finite ((sort ?t ! (N div 2) + sort ?t ! (N div 2 - 1)) / 2))"
      unfolding regression_intercept_def temp qsort_finite Let_def
      using True hi lo lo' pos len by (simp add: read_heap_def)
    then show ?thesis using True by (simp add: median_spec_def Let_def add.commute)
  next
    case False
    from N have hi: "N div 2 < N" by simp
    have "regression_intercept (Finite k) x y N = Inr (Finite (sort ?t ! (N div 2)))"
      unfolding regression_intercept_def temp qsort_finite Let_def
      using False hi len by (simp add: read_heap_def)
    then show ?thesis using False by (simp add: median_spec_def Let_def)
  qed
qed

section \<open>The cutoff loop\<close>

lemma dbl_less_asym: "dbl_less a b \<Longrightarrow> \<not> dbl_less b a"
  by (cases a; cases b) auto

lemma dbl_le_trans:
  "b \<noteq> NaN \<Longrightarrow> \<not> dbl_less b a \<Longrightarrow> \<not> dbl_less c b \<Longrightarrow> \<not> dbl_less c a"
  by (cases a; cases b; cases c) auto

lemma cmpfunc_le_0: "cmpfunc a b \<le> 0 \<longleftrightarrow> \<not> dbl_less b a"
  using dbl_less_asym [of a b] by (auto simp: cmpfunc_def)

lemma set_qsort_insert: "set (qsort_insert cmp a s) = insert a (set s)"
  by (induction s) auto

lemma set_qsort: "set (qsort v cmp) = set v"
  by (induction v) (simp_all add: qsort_def set_qsort_insert)

lemma length_qsort_insert: "length (qsort_insert cmp a s) = Suc (length s)"
  by (induction s) auto

lemma length_qsort: "length (qsort v cmp) = length v"
  by (induction v) (simp_all add: qsort_def length_qsort_insert)

lemma sorted_qsort_insert:
  assumes "sorted_wrt (\<lambda>a b. \<not> dbl_less b a) s" and "NaN \<notin> set s"
  shows "sorted_wrt (\<lambda>a b. \<not> dbl_less b a) (qsort_insert cmpfunc a s)"
  using assms
proof (induction s)
  case Nil
  then show ?case by simp
next
  case (Cons b bs)
  show ?case
  proof (cases "cmpfunc a b \<le> 0")
    case True
    then have ab: "\<not> dbl_less b a" by (simp add: cmpfunc_le_0)
    have "\<not> dbl_less c a" if "c \<in> set bs" for c
      using dbl_le_trans [of b a c] ab Cons.prems that by auto
    with True ab Cons.prems show ?thesis by auto
  next
    case False
    then have "dbl_less b a" by (simp add: cmpfunc_le_0)
    then have "\<not> dbl_less a b" by (rule dbl_less_asym)
    with False Cons show ?thesis by (auto simp: set_qsort_insert)
  qed
qed

lemma sorted_qsort:
  "NaN \<notin> set v \<Longrightarrow> sorted_wrt (\<lambda>a b. \<not> dbl_less b a) (qsort v cmpfunc)"
proof (induction v)
  case Nil
  then show ?case by (simp add: qsort_def)
next
  case (Cons a v)
  then have "sorted_wrt (\<lambda>a b. \<not> dbl_less b a) (qsort v cmpfunc)" "NaN \<notin> set (qsort v cmpfunc)"
    by (simp_all add: set_qsort)
  then have "sorted_wrt (\<lambda>a b. \<not> dbl_less b a) (qsort_insert cmpfunc a (qsort v cmpfunc))"
    by (rule sorted_qsort_insert)
  then show ?case by (simp add: qsort_def)
qed

lemma pair_slope_not_NaN: "pair_slope x y p = Some s \<Longrightarrow> s \<noteq> NaN"
  by (cases p) (auto simp: pair_slope_def Let_def dbl_inf_def split: if_splits)

lemma collected_slopes_not_NaN: "NaN \<notin> set (List.map_filter (pair_slope x y) ps)"
  using pair_slope_not_NaN by (fastforce simp: List.map_filter_def)

lemma cutoff_spec_Cons:
  "cutoff_spec (a # v)
     = (if 0 \<le> cutoff_spec v then cutoff_spec v + 1
        else if dbl_less a (Finite (- 1)) then 0 else - 1)"
proof -
  let ?P = "\<lambda>s. dbl_less s (Finite (- 1))"
  let ?F = "filter (\<lambda>i. ?P (v ! i)) [0..<length v]"
  have upt: "[0..<length (a # v)] = 0 # map Suc [0..<length v]"
    using upt_conv_Cons [of 0 "Suc (length v)"] by (simp add: map_Suc_upt del: upt_Suc)
  have F: "filter (\<lambda>i. ?P ((a # v) ! i)) [0..<length (a # v)]
      = (if ?P a then [0] else []) @ map Suc ?F"
    unfolding upt by (simp add: filter_map comp_def)
  show ?thesis
  proof (cases ?F)
    case Nil
    then show ?thesis unfolding cutoff_spec_def F by simp
  next
    case (Cons i rest)
    then have "last (map Suc ?F) = Suc (last ?F)" "map Suc ?F \<noteq> []"
      by (simp_all add: last_map)
    then have "cutoff_spec (a # v) = int (Suc (last ?F))"
      unfolding cutoff_spec_def F by (auto split: list.splits)
    moreover have "cutoff_spec v = int (last ?F)"
      unfolding cutoff_spec_def using Cons by simp
    ultimately show ?thesis by simp
  qed
qed

lemma cutoff_spec_lower: "- 1 \<le> cutoff_spec v"
  by (simp add: cutoff_spec_def split: list.splits)

lemma below_iff_not_ge: "s \<noteq> NaN \<Longrightarrow> dbl_less s (Finite (- 1)) \<longleftrightarrow> \<not> dbl_ge s (Finite (- 1))"
  by (cases s) (auto simp: dbl_ge_def)

lemma none_below_after_ge:
  assumes "dbl_ge a (Finite (- 1))" and "\<forall>c\<in>set v. \<not> dbl_less c a"
  shows "cutoff_spec v = - 1"
proof -
  have "\<not> dbl_less c (Finite (- 1))" if "c \<in> set v" for c
    using assms that by (cases a; cases c) (auto simp: dbl_ge_def)
  then have "filter (\<lambda>i. dbl_less (v ! i) (Finite (- 1))) [0..<length v] = []"
    by (simp add: filter_empty_conv)
  then show ?thesis by (simp add: cutoff_spec_def)
qed

lemma cutoff_scan_is_spec:
  assumes "sorted_wrt (\<lambda>a b. \<not> dbl_less b a) v" and "NaN \<notin> set v"
    and "\<exists>s\<in>set v. dbl_ge s (Finite (- 1))"
  shows "cutoff_scan i v = int i + cutoff_spec v"
  using assms
proof (induction v arbitrary: i)
  case Nil
  then show ?case by simp
next
  case (Cons a v)
  show ?case
  proof (cases "dbl_ge a (Finite (- 1))")
    case True
    with Cons.prems have "cutoff_spec v = - 1" "\<not> dbl_less a (Finite (- 1))"
      using none_below_after_ge [of a v] below_iff_not_ge [of a] by auto
    with True show ?thesis by (simp add: cutoff_spec_Cons)
  next
    case False
    with Cons.prems have below: "dbl_less a (Finite (- 1))"
      using below_iff_not_ge [of a] by auto
    from False Cons.prems have "cutoff_scan (Suc i) v = int (Suc i) + cutoff_spec v"
      by (intro Cons.IH) auto
    with False below cutoff_spec_lower [of v] show ?thesis
      by (auto simp: cutoff_spec_Cons)
  qed
qed

lemma cutoff_scan_all_below:
  "\<forall>s\<in>set v. \<not> dbl_ge s (Finite (- 1)) \<Longrightarrow> cutoff_scan i v = 0"
  by (induction v arbitrary: i) auto

lemma cutoff_spec_all_below:
  "v \<noteq> [] \<Longrightarrow> \<forall>s\<in>set v. dbl_less s (Finite (- 1)) \<Longrightarrow> cutoff_spec v = int (length v) - 1"
proof (induction v)
  case Nil
  then show ?case by simp
next
  case (Cons a v)
  show ?case
  proof (cases "v = []")
    case True
    with Cons.prems show ?thesis by (simp add: cutoff_spec_Cons) (simp add: cutoff_spec_def)
  next
    case False
    with Cons have "cutoff_spec v = int (length v) - 1" by simp
    moreover from False have "0 < length v" by simp
    ultimately show ?thesis by (simp add: cutoff_spec_Cons)
  qed
qed

lemma regression_cutoff_correct_part:
  assumes "collect_slopes x y N = Inr vector"
    and "\<exists>s\<in>set vector. dbl_ge s (Finite (- 1))"
  shows "cutoff_scan 0 (qsort vector cmpfunc) = cutoff_spec (qsort vector cmpfunc)"
proof -
  from assms(1) have "NaN \<notin> set vector"
    using collected_slopes_not_NaN [of x y "index_pairs N"] collect_slopes_collects by simp
  then have "sorted_wrt (\<lambda>a b. \<not> dbl_less b a) (qsort vector cmpfunc)"
      "NaN \<notin> set (qsort vector cmpfunc)"
    by (simp_all add: sorted_qsort set_qsort)
  then show ?thesis
    using cutoff_scan_is_spec [of "qsort vector cmpfunc" 0] assms(2) by (simp add: set_qsort)
qed

lemma regression_cutoff_slip:
  assumes "collect_slopes x y N = Inr vector" and "2 \<le> length vector"
    and "\<forall>s\<in>set vector. dbl_less s (Finite (- 1))"
  shows "cutoff_scan 0 (qsort vector cmpfunc) = 0"
    and "cutoff_spec (qsort vector cmpfunc) = int (length vector) - 1"
proof -
  from assms(1) have nn: "NaN \<notin> set vector"
    using collected_slopes_not_NaN [of x y "index_pairs N"] collect_slopes_collects by simp
  have "\<not> dbl_ge s (Finite (- 1))" if "s \<in> set vector" for s
    using that nn assms(3) below_iff_not_ge [of s] by auto
  then show "cutoff_scan 0 (qsort vector cmpfunc) = 0"
    by (intro cutoff_scan_all_below) (simp add: set_qsort)
  from assms(2) have "qsort vector cmpfunc \<noteq> []"
    using length_qsort [of vector cmpfunc] by auto
  then show "cutoff_spec (qsort vector cmpfunc) = int (length vector) - 1"
    using cutoff_spec_all_below [of "qsort vector cmpfunc"] assms(3)
    by (simp add: set_qsort length_qsort)
qed

section \<open>Claims about the regression\<close>




text \<open>
  \<^bold>\<open>C5 (the code at the failing input).\<close>  For \<open>x = [0, 1, 2]\<close> and \<open>y = [4, 2, 0]\<close> the
  three collected slopes are all \<open>-2\<close>.  The loop leaves \<open>cutoff\<close> at its initial value 0,
  while the index of the greatest slope below \<open>-1\<close> is 2.
\<close>

theorem cutoff_when_every_slope_is_below:
  "collect_slopes [0, 1, 2] [4, 2, 0] 3 = Inr [Finite (- 2), Finite (- 2), Finite (- 2)]
   \<and> cutoff_scan 0 (qsort [Finite (- 2), Finite (- 2), Finite (- 2)] cmpfunc) = 0
   \<and> cutoff_spec (qsort [Finite (- 2), Finite (- 2), Finite (- 2)] cmpfunc) = 2"
  by code_simp

text \<open>
  \<^bold>\<open>C7.\<close>  For a finite slope \<open>k\<close> and \<open>N \<ge> 1\<close> points the intercept is the median of the
  values \<open>t[i] = y[i] - k * x[i]\<close>: the middle element of the sorted values when \<open>N\<close> is
  odd, the average of the two middle elements when \<open>N\<close> is even; and this is the \<open>b\<close> that
  \<open>calculateRegression\<close> returns with the slope it computed.
\<close>

theorem intercept_is_median:
  assumes "1 \<le> N" and "length pDivergent = N" and "length pAllConvergent = N"
  shows "regression_intercept (Finite k) pDivergent pAllConvergent N
           = Inr (Finite (median_spec (map (\<lambda>i. pAllConvergent ! i - k * pDivergent ! i) [0..<N])))
       \<and> (regression_slope pDivergent pAllConvergent N = Inr (Finite k) \<longrightarrow>
            calculateRegression pDivergent pAllConvergent N
              = Inr (Finite k,
                     Finite (median_spec (map (\<lambda>i. pAllConvergent ! i - k * pDivergent ! i) [0..<N]))))"
  using intercept_finite [OF assms(1), of k pDivergent pAllConvergent]
  by (simp add: calculateRegression_def)

lemma scenario_S4_slope: "regression_slope [1, 2, 3, 4, 5] [1, 2, 4, 4, 5] 5 = Inr (Finite 1)"
  by code_simp

text \<open>Witness for C7: the five points of scenario S4.\<close>

theorem intercept_is_median_witness:
  "regression_intercept (Finite 1) [1, 2, 3, 4, 5] [1, 2, 4, 4, 5] 5
           = Inr (Finite (median_spec (map (\<lambda>i. [1, 2, 4, 4, 5] ! i - 1 * [1, 2, 3, 4, 5] ! i) [0..<5])))
       \<and> calculateRegression [1, 2, 3, 4, 5] [1, 2, 4, 4, 5] 5
              = Inr (Finite 1,
                     Finite (median_spec (map (\<lambda>i. [1, 2, 4, 4, 5] ! i - 1 * [1, 2, 3, 4, 5] ! i) [0..<5])))"
  using intercept_is_median [of 5 "[1, 2, 3, 4, 5]" "[1, 2, 4, 4, 5]" 1] scenario_S4_slope
  by simp

text \<open>Scenario S4 of the specification.\<close>

lemma scenario_S4: "calculateRegression [1, 2, 3, 4, 5] [1, 2, 4, 4, 5] 5 = Inr (Finite 1, Finite 0)"
  by code_simp

section \<open>File effects of the emitter\<close>

lemma fprintf_other: "p \<noteq> path \<Longrightarrow> fprintf fs path text p = fs p"
  by (simp add: fprintf_def)

lemma fprintf_after_open: "fprintf (fopen_write fs path) path text = fs(path \<mapsto> text)"
  by (simp add: fprintf_def fopen_write_def)

lemma copy_template_other:
  "p \<noteq> newHTML \<Longrightarrow> snd (copy_template fmt_d dataFile sel num newHTML lines fs) p = fs p"
  by (induction lines arbitrary: fs) (auto simp: Let_def fprintf_other split: option.splits)

lemma generateHTML_other:
  assumes "p \<noteq> ''UI/User/'' @ (case moreFile of None \<Rightarrow> htmlFileName | Some name \<Rightarrow> name)"
  shows "snd (generateHTML fmt_d htmlFileName fs dataFile templateFile moreFile sel num) p = fs p"
  using assms by (simp add: generateHTML_def Let_def copy_template_other fopen_write_def)

lemma generateHTML_template_missing:
  assumes "fs templateFile = None"
  shows "generateHTML fmt_d htmlFileName fs dataFile templateFile moreFile sel num
       = (Crashed, fs(''UI/User/'' @ (case moreFile of None \<Rightarrow> htmlFileName | Some name \<Rightarrow> name) \<mapsto> []))"
  using assms by (simp add: generateHTML_def Let_def fopen_read_def fopen_write_def)

lemma generate_pages_other:
  assumes "\<And>templateFile moreFile sel num. (templateFile, moreFile, sel, num) \<in> set pages
            \<Longrightarrow> p \<noteq> ''UI/User/'' @ (case moreFile of None \<Rightarrow> htmlFileName | Some name \<Rightarrow> name)"
  shows "snd (generate_pages fmt_d htmlFileName dataFile pages fs) p = fs p"
  using assms
proof (induction pages arbitrary: fs)
  case Nil
  then show ?case by simp
next
  case (Cons page pages)
  obtain templateFile moreFile sel num where page: "page = (templateFile, moreFile, sel, num)"
    by (cases page)
  obtain st fs' where g: "generateHTML fmt_d htmlFileName fs dataFile templateFile moreFile sel num = (st, fs')"
    by (cases "generateHTML fmt_d htmlFileName fs dataFile templateFile moreFile sel num")
  have "p \<noteq> ''UI/User/'' @ (case moreFile of None \<Rightarrow> htmlFileName | Some name \<Rightarrow> name)"
    using Cons.prems [of templateFile moreFile sel num] page by simp
  then have "snd (generateHTML fmt_d htmlFileName fs dataFile templateFile moreFile sel num) p = fs p"
    by (rule generateHTML_other)
  then have fs': "fs' p = fs p"
    using g by simp
  show ?case
  proof (cases st)
    case Completed
    have "snd (generate_pages fmt_d htmlFileName dataFile pages fs') p = fs' p"
      using Cons.prems by (intro Cons.IH) auto
    with Completed g fs' page show ?thesis by simp
  next
    case Crashed
    with g fs' page show ?thesis by simp
  qed
qed

lemma outputDataInJS_files_frame:
  assumes "p \<notin> output_paths htmlFileName"
  shows "snd (outputDataInJS_files fmt_d htmlFileName data_text sel num fs) p = fs p"
proof (cases "data_file_path htmlFileName")
  case None
  then show ?thesis by (simp add: outputDataInJS_files_def)
next
  case (Some dataFile)
  with assms have p: "p \<noteq> dataFile" "p \<noteq> ''UI/User/'' @ htmlFileName"
    "p \<noteq> ''UI/User/sheet-'' @ htmlFileName" "p \<noteq> ''UI/User/siteSpecific-'' @ htmlFileName"
    "p \<noteq> ''UI/User/rateVsDiversity-'' @ htmlFileName"
    "p \<noteq> ''UI/User/rateVsProbConvergence-'' @ htmlFileName"
    by (simp_all add: output_paths_def)
  have "snd (outputDataInJS_files fmt_d htmlFileName data_text sel num fs) p
      = fprintf (fopen_write fs dataFile) dataFile data_text p"
    unfolding outputDataInJS_files_def Some option.case
    by (rule generate_pages_other) (use p in auto)
  also have "\<dots> = fs p"
    using p(1) by (simp add: fprintf_after_open)
  finally show ?thesis .
qed

lemma outputDataInJS_files_template_missing:
  assumes "data_file_path htmlFileName = Some dataFile" and "fs ''UI/Template.html'' = None"
  shows "outputDataInJS_files fmt_d htmlFileName data_text sel num fs
       = (Crashed, fs(dataFile \<mapsto> data_text, ''UI/User/'' @ htmlFileName \<mapsto> []))"
proof -
  from assms(1) have "dataFile \<noteq> ''UI/Template.html''"
    by (auto simp: data_file_path_def split: if_splits)
  then have "(fs(dataFile \<mapsto> data_text)) ''UI/Template.html'' = None"
    using assms(2) by simp
  then show ?thesis
    using assms(1)
    by (simp add: outputDataInJS_files_def fprintf_after_open generateHTML_template_missing)
qed

lemma data_file_is_no_page:
  assumes "data_file_path htmlFileName = Some dataFile"
    and "CHR ''.'' \<notin> set page_prefix" and "length page_prefix \<noteq> 4"
  shows "dataFile \<noteq> ''UI/User/'' @ page_prefix @ htmlFileName"
proof
  let ?P = "\<lambda>c. c \<noteq> CHR ''.''"
  let ?stem = "takeWhile ?P htmlFileName"
  assume "dataFile = ''UI/User/'' @ page_prefix @ htmlFileName"
  with assms(1) have eq: "?stem @ ''Data.js'' = page_prefix @ htmlFileName"
    by (auto simp: data_file_path_def split: if_splits)
  have stem: "\<And>c. c \<in> set ?stem \<Longrightarrow> ?P c"
    by (rule set_takeWhileD [THEN conjunct2])
  have "takeWhile ?P (?stem @ ''Data.js'') = ?stem @ takeWhile ?P ''Data.js''"
    using stem by (rule takeWhile_append2)
  then have left: "takeWhile ?P (?stem @ ''Data.js'') = ?stem @ ''Data''"
    by simp
  have right: "takeWhile ?P (page_prefix @ htmlFileName) = page_prefix @ ?stem"
    using assms(2) by (intro takeWhile_append2) auto
  from eq left right have "?stem @ ''Data'' = page_prefix @ ?stem"
    by simp
  then have "length (?stem @ ''Data'') = length (page_prefix @ ?stem)"
    by (rule arg_cong)
  with assms(3) show False by simp
qed

lemma outputDataInJS_files_data_file:
  assumes "data_file_path htmlFileName = Some dataFile"
  shows "snd (outputDataInJS_files fmt_d htmlFileName data_text sel num fs) dataFile = Some data_text"
proof -
  have p: "dataFile \<noteq> ''UI/User/'' @ htmlFileName"
    "dataFile \<noteq> ''UI/User/'' @ ''sheet-'' @ htmlFileName"
    "dataFile \<noteq> ''UI/User/'' @ ''siteSpecific-'' @ htmlFileName"
    "dataFile \<noteq> ''UI/User/'' @ ''rateVsDiversity-'' @ htmlFileName"
    "dataFile \<noteq> ''UI/User/'' @ ''rateVsProbConvergence-'' @ htmlFileName"
    using data_file_is_no_page [OF assms, of "[]"]
      data_file_is_no_page [OF assms, of "''sheet-''"]
      data_file_is_no_page [OF assms, of "''siteSpecific-''"]
      data_file_is_no_page [OF assms, of "''rateVsDiversity-''"]
      data_file_is_no_page [OF assms, of "''rateVsProbConvergence-''"]
    by simp_all
  have "snd (outputDataInJS_files fmt_d htmlFileName data_text sel num fs) dataFile
      = fprintf (fopen_write fs dataFile) dataFile data_text dataFile"
    unfolding outputDataInJS_files_def assms option.case
    by (rule generate_pages_other) (use p in auto)
  then show ?thesis
    by (simp add: fprintf_after_open)
qed


section \<open>The per-pair site array\<close>

lemma site_index_bound:
  assumes "ig < numSel" and "h < lst"
  shows "ig * lst * 2 + h * 2 + 1 < numSel * lst * (2::nat)"
proof -
  from assms(1) have "Suc ig * lst \<le> numSel * lst"
    by (intro mult_le_mono1) simp
  with assms(2) have "ig * lst + h < numSel * lst" by simp
  then show ?thesis by simp
qed

lemma append_text_ok:
  "length buf + length text < cap \<Longrightarrow> append_text cap buf text = Inr (buf @ text)"
  by (simp add: append_text_def)

lemma site_values_ok:
  assumes "ig * lst * 2 + h * 2 + 1 < length m" and "length m < 2 ^ 31"
  shows "site_values m lst ig h = Inr (m ! (ig * lst * 2 + h * 2), m ! (ig * lst * 2 + h * 2 + 1))"
  using assms by (simp add: site_values_def)

lemma emit_site_ok:
  assumes "ig * lst * 2 + h * 2 + 1 < length m" and "length m < 2 ^ 31"
    and "length buf
         + length (if m ! (ig * lst * 2 + h * 2) \<noteq> 0 \<or> m ! (ig * lst * 2 + h * 2 + 1) \<noteq> 0
                   then site_triple fmt_d fmt_6f h (m ! (ig * lst * 2 + h * 2))
                          (m ! (ig * lst * 2 + h * 2 + 1)) @ sep
                   else []) < cap"
  shows "emit_site fmt_d fmt_6f m lst ig cap sep h buf
       = Inr (buf @ (if m ! (ig * lst * 2 + h * 2) \<noteq> 0 \<or> m ! (ig * lst * 2 + h * 2 + 1) \<noteq> 0
                     then site_triple fmt_d fmt_6f h (m ! (ig * lst * 2 + h * 2))
                            (m ! (ig * lst * 2 + h * 2 + 1)) @ sep
                     else []))"
proof (cases "m ! (ig * lst * 2 + h * 2) \<noteq> 0 \<or> m ! (ig * lst * 2 + h * 2 + 1) \<noteq> 0")
  case True
  with assms(3) have "length buf + length (site_triple fmt_d fmt_6f h (m ! (ig * lst * 2 + h * 2))
                          (m ! (ig * lst * 2 + h * 2 + 1)) @ sep) < cap"
    by (simp only: if_True)
  then have "append_text cap buf (site_triple fmt_d fmt_6f h (m ! (ig * lst * 2 + h * 2))
                          (m ! (ig * lst * 2 + h * 2 + 1)) @ sep)
      = Inr (buf @ site_triple fmt_d fmt_6f h (m ! (ig * lst * 2 + h * 2))
                          (m ! (ig * lst * 2 + h * 2 + 1)) @ sep)"
    by (rule append_text_ok)
  then show ?thesis
    unfolding emit_site_def site_values_ok [OF assms(1,2)] and_then_Inr fst_conv snd_conv
    using True by (simp only: if_True)
next
  case False
  show ?thesis
    unfolding emit_site_def site_values_ok [OF assms(1,2)] and_then_Inr fst_conv snd_conv
    using False by (simp only: if_False append_Nil2)
qed

lemma emit_sites_loop:
  assumes "\<And>h. h < n \<Longrightarrow> ig * lst * 2 + h * 2 + 1 < length m" and "length m < 2 ^ 31"
    and "length buf
         + length (concat (map (\<lambda>h. if m ! (ig * lst * 2 + h * 2) \<noteq> 0
                                        \<or> m ! (ig * lst * 2 + h * 2 + 1) \<noteq> 0
                                     then site_triple fmt_d fmt_6f h (m ! (ig * lst * 2 + h * 2))
                                            (m ! (ig * lst * 2 + h * 2 + 1)) @ sep
                                     else []) [0..<n])) < cap"
  shows "for_each [0..<n] (emit_site fmt_d fmt_6f m lst ig cap sep) buf
       = Inr (buf @ concat (map (\<lambda>h. if m ! (ig * lst * 2 + h * 2) \<noteq> 0
                                        \<or> m ! (ig * lst * 2 + h * 2 + 1) \<noteq> 0
                                     then site_triple fmt_d fmt_6f h (m ! (ig * lst * 2 + h * 2))
                                            (m ! (ig * lst * 2 + h * 2 + 1)) @ sep
                                     else []) [0..<n]))"
  using assms(1,3)
proof (induction n)
  case 0
  then show ?case by simp
next
  case (Suc n)
  let ?piece = "\<lambda>h. if m ! (ig * lst * 2 + h * 2) \<noteq> 0 \<or> m ! (ig * lst * 2 + h * 2 + 1) \<noteq> 0
                     then site_triple fmt_d fmt_6f h (m ! (ig * lst * 2 + h * 2))
                            (m ! (ig * lst * 2 + h * 2 + 1)) @ sep
                     else []"
  have room: "length buf + length (concat (map ?piece [0..<n])) + length (?piece n) < cap"
    using Suc.prems(2) by simp
  then have "for_each [0..<n] (emit_site fmt_d fmt_6f m lst ig cap sep) buf
             = Inr (buf @ concat (map ?piece [0..<n]))"
    using Suc.prems(1) by (intro Suc.IH) simp_all
  moreover have "emit_site fmt_d fmt_6f m lst ig cap sep n (buf @ concat (map ?piece [0..<n]))
             = Inr ((buf @ concat (map ?piece [0..<n])) @ ?piece n)"
    using Suc.prems(1) [of n] assms(2) room by (intro emit_site_ok) simp_all
  ultimately show ?case
    by (simp add: for_each_append)
qed

lemma concat_pieces:
  "concat (map (\<lambda>h. if P h then f h else []) hs) = concat (map f (filter P hs))"
  by (induction hs) simp_all

lemma siteSpecificBP_result:
  assumes "ig < numSel" and "length m = numSel * lst * 2" and "0 < lst"
    and "length m < 2 ^ 31" and "lst * 30 < 2 ^ 31"
    and "length (claimed_site_array fmt_d fmt_6f m lst ig) < lst * 30"
  shows "siteSpecificBP fmt_d fmt_6f m lst ig = Inr (claimed_site_array fmt_d fmt_6f m lst ig)"
proof -
  let ?nz = "\<lambda>h. m ! (ig * lst * 2 + h * 2) \<noteq> 0 \<or> m ! (ig * lst * 2 + h * 2 + 1) \<noteq> 0"
  let ?triple = "\<lambda>h. site_triple fmt_d fmt_6f h (m ! (ig * lst * 2 + h * 2))
                                  (m ! (ig * lst * 2 + h * 2 + 1))"
  let ?piece = "\<lambda>sep h. if ?nz h then ?triple h @ sep else []"
  let ?claimed = "\<lambda>h. if ?nz h then ?triple h @ (if h < lst - 1 then '', '' else '' '') else []"
  define n where "n = lst - 1"
  have sites: "[0..<lst] = [0..<n] @ [n]"
    using assms(3) by (cases lst) (simp_all add: n_def)
  have rng: "ig * lst * 2 + h * 2 + 1 < length m" if "h < lst" for h
    using site_index_bound [OF assms(1) that] assms(2) by simp
  have rng_loop: "\<And>h. h < n \<Longrightarrow> ig * lst * 2 + h * 2 + 1 < length m"
    and rng_last: "ig * lst * 2 + n * 2 + 1 < length m"
    using rng assms(3) by (simp_all add: n_def)
  have inner: "map ?claimed [0..<n] = map (?piece '', '') [0..<n]"
    by (rule map_cong) (simp_all add: n_def)
  have last_piece: "?claimed n = ?piece '' '' n"
    by (simp add: n_def)
  have "concat (map (\<lambda>h. ?triple h @ (if h < lst - 1 then '', '' else '' '')) (filter ?nz [0..<lst]))
      = concat (map ?claimed [0..<lst])"
    by (simp only: concat_pieces)
  also have "\<dots> = concat (map ?claimed [0..<n]) @ ?claimed n"
    unfolding sites by simp
  also have "\<dots> = concat (map (?piece '', '') [0..<n]) @ ?piece '' '' n"
    by (simp only: inner last_piece)
  finally have claimed: "claimed_site_array fmt_d fmt_6f m lst ig
      = (''[ '' @ concat (map (?piece '', '') [0..<n]) @ ?piece '' '' n) @ '']''"
    unfolding claimed_site_array_def by simp
  have total: "length (''[ '' @ concat (map (?piece '', '') [0..<n]) @ ?piece '' '' n) + 1 < lst * 30"
    using assms(6) unfolding claimed by simp
  then have room_loop: "length ''[ '' + length (concat (map (?piece '', '') [0..<n])) < lst * 30"
    and room_last: "length (''[ '' @ concat (map (?piece '', '') [0..<n])) + length (?piece '' '' n) < lst * 30"
    and room_close: "length (''[ '' @ concat (map (?piece '', '') [0..<n]) @ ?piece '' '' n)
                       + length '']'' < lst * 30"
    and room_open: "length ([]::string) + length ''[ '' < lst * 30"
    by simp_all
  have opened: "append_text (lst * 30) [] ''[ '' = Inr ([] @ ''[ '')"
    using room_open by (rule append_text_ok)
  have looped: "for_each [0..<n] (emit_site fmt_d fmt_6f m lst ig (lst * 30) '', '') ''[ ''
      = Inr (''[ '' @ concat (map (?piece '', '') [0..<n]))"
    using rng_loop assms(4) room_loop by (rule emit_sites_loop)
  have last_site: "emit_site fmt_d fmt_6f m lst ig (lst * 30) '' '' n
                (''[ '' @ concat (map (?piece '', '') [0..<n]))
      = Inr ((''[ '' @ concat (map (?piece '', '') [0..<n])) @ ?piece '' '' n)"
    using rng_last assms(4) room_last by (rule emit_site_ok)
  have closed: "append_text (lst * 30)
                  (''[ '' @ concat (map (?piece '', '') [0..<n]) @ ?piece '' '' n) '']''
      = Inr ((''[ '' @ concat (map (?piece '', '') [0..<n]) @ ?piece '' '' n) @ '']'')"
    using room_close by (rule append_text_ok)
  have "siteSpecificBP fmt_d fmt_6f m lst ig
      = Inr ((''[ '' @ concat (map (?piece '', '') [0..<n]) @ ?piece '' '' n) @ '']'')"
    unfolding siteSpecificBP_def n_def [symmetric]
    using assms(5) opened looped last_site closed by simp
  then show ?thesis
    by (simp only: claimed)
qed

lemma branch_pair_step_result:
  assumes "ig < numSel" and "length m = numSel * lst * 2" and "0 < lst"
    and "length m < 2 ^ 31" and "lst * 30 < 2 ^ 31"
    and "length (claimed_site_array fmt_d fmt_6f m lst ig) < lst * 30"
    and "length sel = numSel * 3" and "numSel * 3 < 2 ^ 31"
    and "length (fmt_d (sel ! (ig * 3))) + length (fmt_d (sel ! (ig * 3 + 1))) \<le> 11"
    and "length pairs + 17 < cap_pairs" and "length names + 30 < cap_names"
    and "length ids + 19 < cap_ids"
  shows "\<exists>pairs' names' ids'.
           branch_pair_step fmt_d fmt_6f m sel numSel lst cap_pairs cap_names cap_ids ig
             (written, pairs, names, ids)
           = Inr (written @ [makeupDataOutput (claimed_site_array fmt_d fmt_6f m lst ig)
                               (''BP_'' @ fmt_d (sel ! (ig * 3)) @ ''x'' @ fmt_d (sel ! (ig * 3 + 1)))
                             @ '';\<newline>''],
                  pairs', names', ids')
         \<and> length pairs' \<le> length pairs + 17 \<and> length names' \<le> length names + 30
         \<and> length ids' \<le> length ids + 19"
proof -
  let ?b1 = "fmt_d (sel ! (ig * 3))"
  let ?b2 = "fmt_d (sel ! (ig * 3 + 1))"
  let ?sep = "if ig + 1 < numSel then '', '' else '' ]''"
  have sites: "siteSpecificBP fmt_d fmt_6f m lst ig = Inr (claimed_site_array fmt_d fmt_6f m lst ig)"
    using assms(1-6) by (rule siteSpecificBP_result)
  have "Suc ig * 3 \<le> numSel * 3"
    using assms(1) by (intro mult_le_mono1) simp
  then have idx: "ig * 3 < length sel" "ig * 3 + 1 < length sel" "ig * 3 < 2 ^ 31" "ig * 3 + 1 < 2 ^ 31"
    using assms(7,8) by simp_all
  have sep: "length ?sep = 2"
    by simp
  have id_text: "append_text 20 [] (''BP_'' @ ?b1 @ ''x'' @ ?b2) = Inr (''BP_'' @ ?b1 @ ''x'' @ ?b2)"
    using assms(9) by (simp add: append_text_def)
  have name_text: "append_text 30 [] (''\"Branch Pair: '' @ ?b1 @ ''..'' @ ?b2 @ ''\"'')
      = Inr (''\"Branch Pair: '' @ ?b1 @ ''..'' @ ?b2 @ ''\"'')"
    using assms(9) by (simp add: append_text_def)
  have a1: "append_text cap_pairs pairs ((''BP_'' @ ?b1 @ ''x'' @ ?b2) @ ?sep)
      = Inr (pairs @ (''BP_'' @ ?b1 @ ''x'' @ ?b2) @ ?sep)"
    using assms(9,10) by (intro append_text_ok) simp
  have a2: "append_text cap_names names ((''\"Branch Pair: '' @ ?b1 @ ''..'' @ ?b2 @ ''\"'') @ ?sep)
      = Inr (names @ (''\"Branch Pair: '' @ ?b1 @ ''..'' @ ?b2 @ ''\"'') @ ?sep)"
    using assms(9,11) by (intro append_text_ok) simp
  have a3: "append_text cap_ids ids (''\"'' @ (''BP_'' @ ?b1 @ ''x'' @ ?b2) @ ''\"'' @ ?sep)
      = Inr (ids @ ''\"'' @ (''BP_'' @ ?b1 @ ''x'' @ ?b2) @ ''\"'' @ ?sep)"
    using assms(9,12) by (intro append_text_ok) simp
  have "branch_pair_step fmt_d fmt_6f m sel numSel lst cap_pairs cap_names cap_ids ig
             (written, pairs, names, ids)
      = Inr (written @ [makeupDataOutput (claimed_site_array fmt_d fmt_6f m lst ig)
                          (''BP_'' @ ?b1 @ ''x'' @ ?b2) @ '';\<newline>''],
             pairs @ (''BP_'' @ ?b1 @ ''x'' @ ?b2) @ ?sep,
             names @ (''\"Branch Pair: '' @ ?b1 @ ''..'' @ ?b2 @ ''\"'') @ ?sep,
             ids @ ''\"'' @ (''BP_'' @ ?b1 @ ''x'' @ ?b2) @ ''\"'' @ ?sep)"
    unfolding branch_pair_step_def
    using sites idx id_text name_text a1 a2 a3 by (simp add: Let_def)
  moreover have "length (pairs @ (''BP_'' @ ?b1 @ ''x'' @ ?b2) @ ?sep) \<le> length pairs + 17"
    "length (names @ (''\"Branch Pair: '' @ ?b1 @ ''..'' @ ?b2 @ ''\"'') @ ?sep) \<le> length names + 30"
    "length (ids @ ''\"'' @ (''BP_'' @ ?b1 @ ''x'' @ ?b2) @ ''\"'' @ ?sep) \<le> length ids + 19"
    using assms(9) by simp_all
  ultimately show ?thesis by blast
qed

lemma site_section_result:
  assumes "0 < numSel" and "length m = numSel * lst * 2" and "0 < lst"
    and "length m < 2 ^ 31" and "lst * 30 < 2 ^ 31" and "30 * numSel + 4 < 2 ^ 31"
    and "length sel = numSel * 3"
    and "\<And>i. i < numSel \<Longrightarrow> length (claimed_site_array fmt_d fmt_6f m lst i) < lst * 30"
    and "\<And>i. i < numSel \<Longrightarrow>
           length (fmt_d (sel ! (i * 3))) + length (fmt_d (sel ! (i * 3 + 1))) \<le> 11"
  shows "\<exists>summary. site_section fmt_d fmt_6f m sel numSel lst
           = Inr (map (\<lambda>i. makeupDataOutput (claimed_site_array fmt_d fmt_6f m lst i)
                              (''BP_'' @ fmt_d (sel ! (i * 3)) @ ''x'' @ fmt_d (sel ! (i * 3 + 1)))
                            @ '';\<newline>'') [0..<numSel] @ summary)
         \<and> length summary = 3"
proof -
  let ?line = "\<lambda>i. makeupDataOutput (claimed_site_array fmt_d fmt_6f m lst i)
                      (''BP_'' @ fmt_d (sel ! (i * 3)) @ ''x'' @ fmt_d (sel ! (i * 3 + 1)))
                    @ '';\<newline>''"
  let ?I = "\<lambda>i st. case st of (written, pairs, names, ids) \<Rightarrow>
              written = map ?line [0..<i] \<and> length pairs \<le> 2 + 17 * i
              \<and> length names \<le> 2 + 30 * i \<and> length ids \<le> 2 + 19 * i"
  let ?step = "branch_pair_step fmt_d fmt_6f m sel numSel lst
                 (20 * numSel + 4) (30 * numSel + 4) (25 * numSel + 4)"
  have caps: "20 * numSel + 4 < 2 ^ 31" "25 * numSel + 4 < 2 ^ 31" "numSel * 3 < 2 ^ 31"
    using assms(6) by simp_all
  have start: "?I 0 ([], ''[ '', ''[ '', ''[ '')"
    by simp
  have step: "\<exists>st'. ?step i st = Inr st' \<and> ?I (Suc i) st'" if "i < numSel" "?I i st" for i st
  proof -
    obtain written pairs names ids where st: "st = (written, pairs, names, ids)"
      by (cases st)
    from that(2) have inv: "written = map ?line [0..<i]" "length pairs \<le> 2 + 17 * i"
      "length names \<le> 2 + 30 * i" "length ids \<le> 2 + 19 * i"
      by (simp_all add: st)
    from that(1) have "Suc i \<le> numSel" by simp
    then have "17 * Suc i \<le> 17 * numSel" "30 * Suc i \<le> 30 * numSel" "19 * Suc i \<le> 19 * numSel"
      by (simp_all only: mult_le_mono2)
    with inv have room: "length pairs + 17 < 20 * numSel + 4" "length names + 30 < 30 * numSel + 4"
      "length ids + 19 < 25 * numSel + 4"
      by simp_all
    have fit: "length (claimed_site_array fmt_d fmt_6f m lst i) < lst * 30"
      using that(1) by (rule assms(8))
    have digits: "length (fmt_d (sel ! (i * 3))) + length (fmt_d (sel ! (i * 3 + 1))) \<le> 11"
      using that(1) by (rule assms(9))
    have "\<exists>pairs' names' ids'.
            ?step i (written, pairs, names, ids) = Inr (written @ [?line i], pairs', names', ids')
          \<and> length pairs' \<le> length pairs + 17 \<and> length names' \<le> length names + 30
          \<and> length ids' \<le> length ids + 19"
      using that(1) assms(2,3,4,5) fit assms(7) caps(3) digits room
      by (rule branch_pair_step_result)
    then obtain pairs' names' ids' where r:
      "?step i (written, pairs, names, ids) = Inr (written @ [?line i], pairs', names', ids')"
      "length pairs' \<le> length pairs + 17" "length names' \<le> length names + 30"
      "length ids' \<le> length ids + 19"
      by blast
    have "?I (Suc i) (written @ [?line i], pairs', names', ids')"
      using inv r(2,3,4) by simp
    with r(1) st show ?thesis by blast
  qed
  obtain st' where loop: "for_each [0..<numSel] ?step ([], ''[ '', ''[ '', ''[ '') = Inr st'"
    and final: "?I numSel st'"
    using for_each_invariant [of ?I "([], ''[ '', ''[ '', ''[ '')" numSel ?step] start step
    by blast
  obtain written pairs names ids where st': "st' = (written, pairs, names, ids)"
    by (cases st')
  have "site_section fmt_d fmt_6f m sel numSel lst
      = Inr (written @
             [makeupDataOutput pairs ''siteSpecificBranchPairs'' @ '';\<newline>'',
              makeupDataOutput names ''siteSpecificBranchPairsName'' @ '';\<newline>'',
              makeupDataOutput ids ''siteSpecificBranchPairsIDs'' @ '';\<newline>''])"
    unfolding site_section_def
    using assms(1,6) caps loop st' by (simp add: append_text_def)
  moreover have "written = map ?line [0..<numSel]"
    using final st' by simp
  ultimately show ?thesis by simp
qed

text \<open>The buffer of \<open>lst * 30\<close> bytes is not always large enough: for a single site with
  the values 18.05 and 342.95 the array text has 30 characters, and its terminating zero
  is written to the byte 30 of the block.\<close>

lemma siteSpecificBP_one_site_overflow:
  "siteSpecificBP (\<lambda>n. ''0'') (\<lambda>v. if v = 1805 / 100 then ''18.050000'' else ''342.950000'')
     [1805 / 100, 34295 / 100] 1 0 = Inl (HeapOutOfBounds 30 30)"
  by (simp add: siteSpecificBP_def emit_site_def site_values_def append_text_def site_triple_def)


section \<open>Claims about the emitter\<close>

text \<open>
  \<^bold>\<open>C10.\<close>  Let the run reach the opening of the data file with a well-formed
  \<open>siteSpecificMap\<close> (two values for each of the \<open>lst\<close> sites of each selected pair), index
  products that fit an \<open>int\<close>, and texts that fit the buffers of the source (the site array
  of a pair in \<open>lst * 30\<close> bytes, the two numbers of a pair in eleven digits).  Then the
  data file ends up with the \<open>header\<close> texts, one line per selected pair and three summary
  lines, and the line of the pair \<open>ig\<close> is \<open>BP_<b1>x<b2> = <array>;\<close> whose array holds
  the triple \<open>[h, conv, div]\<close> of a site \<open>h < lst\<close> exactly when \<open>conv \<noteq> 0\<close> or \<open>div \<noteq> 0\<close>
  (definition \<open>claimed_site_array\<close>); a site with both values zero is left out.  This holds
  whether or not the pages that are generated afterwards can be written.
\<close>

theorem site_array_lists_nonzero_sites:
  assumes "ig < numOfSelectedBranchPairs"
    and "length siteSpecificMap = numOfSelectedBranchPairs * lst * 2" and "0 < lst"
    and "length siteSpecificMap < 2 ^ 31" and "lst * 30 < 2 ^ 31"
    and "30 * numOfSelectedBranchPairs + 4 < 2 ^ 31"
    and "length selectedBranchPairs = numOfSelectedBranchPairs * 3"
    and "\<forall>i<numOfSelectedBranchPairs.
           length (claimed_site_array fmt_d fmt_6f siteSpecificMap lst i) < lst * 30
         \<and> length (fmt_d (selectedBranchPairs ! (i * 3)))
             + length (fmt_d (selectedBranchPairs ! (i * 3 + 1))) \<le> 11"
    and "data_file_path htmlFileName = Some dataFile"
  shows "\<exists>status fs' written.
           outputDataInJS fmt_d fmt_6f htmlFileName header siteSpecificMap selectedBranchPairs
             numOfSelectedBranchPairs lst fs = Inr (status, fs')
         \<and> fs' dataFile = Some written
         \<and> length written = length header + numOfSelectedBranchPairs + 3
         \<and> take (length header) written = header
         \<and> written ! (length header + ig)
             = ''BP_'' @ fmt_d (selectedBranchPairs ! (ig * 3)) @ ''x''
               @ fmt_d (selectedBranchPairs ! (ig * 3 + 1)) @ '' = ''
               @ claimed_site_array fmt_d fmt_6f siteSpecificMap lst ig @ '';\<newline>''"
proof -
  let ?line = "\<lambda>i. makeupDataOutput (claimed_site_array fmt_d fmt_6f siteSpecificMap lst i)
                      (''BP_'' @ fmt_d (selectedBranchPairs ! (i * 3)) @ ''x''
                       @ fmt_d (selectedBranchPairs ! (i * 3 + 1)))
                    @ '';\<newline>''"
  from assms(1) have some: "0 < numOfSelectedBranchPairs" by simp
  obtain summary where texts:
    "site_section fmt_d fmt_6f siteSpecificMap selectedBranchPairs numOfSelectedBranchPairs lst
       = Inr (map ?line [0..<numOfSelectedBranchPairs] @ summary)"
    and summary: "length summary = 3"
    using site_section_result [OF some assms(2,3,4,5,6,7), of fmt_d fmt_6f] assms(8)
    by blast
  let ?written = "header @ map ?line [0..<numOfSelectedBranchPairs] @ summary"
  let ?run = "outputDataInJS_files fmt_d htmlFileName ?written selectedBranchPairs
                numOfSelectedBranchPairs fs"
  have run: "outputDataInJS fmt_d fmt_6f htmlFileName header siteSpecificMap selectedBranchPairs
               numOfSelectedBranchPairs lst fs = Inr (fst ?run, snd ?run)"
    by (simp add: outputDataInJS_def assms(9) texts)
  have content: "snd ?run dataFile = Some ?written"
    using assms(9) by (rule outputDataInJS_files_data_file)
  have "?written ! (length header + ig) = ?line ig"
    using assms(1) by (simp add: nth_append)
  then have line: "?written ! (length header + ig)
      = ''BP_'' @ fmt_d (selectedBranchPairs ! (ig * 3)) @ ''x''
        @ fmt_d (selectedBranchPairs ! (ig * 3 + 1)) @ '' = ''
        @ claimed_site_array fmt_d fmt_6f siteSpecificMap lst ig @ '';\<newline>''"
    by (simp add: makeupDataOutput_def)
  have "length ?written = length header + numOfSelectedBranchPairs + 3"
    "take (length header) ?written = header"
    using summary by simp_all
  with run content line show ?thesis by blast
qed

text \<open>Witness for C10: one pair (the nodes 3 and 5) and three sites, numbers rendered in
  unary; the first site has both values zero and is left out of the array.\<close>

theorem site_array_lists_nonzero_sites_witness:
  "\<exists>status fs' written.
           outputDataInJS (\<lambda>n. replicate n (CHR ''I'')) (\<lambda>v. if v = 0 then ''0'' else ''v'')
             ''index.html'' [''header''] [0, 0, 1 / 2, 0, 0, 1 / 4] [3, 5, 0] 1 3 Map.empty
             = Inr (status, fs')
         \<and> fs' ''UI/User/indexData.js'' = Some written
         \<and> length written = 5
         \<and> take 1 written = [''header'']
         \<and> written ! 1 = ''BP_IIIxIIIII = [ [I, v, 0], [II, 0, v] ];\<newline>''"
proof -
  have array: "claimed_site_array (\<lambda>n. replicate n (CHR ''I'')) (\<lambda>v. if v = 0 then ''0'' else ''v'')
                 [0, 0, 1 / 2, 0, 0, 1 / 4] 3 0 = ''[ [I, v, 0], [II, 0, v] ]''"
    by (simp add: claimed_site_array_def site_triple_def upt_conv_Cons)
  have fits: "\<forall>i<1. length (claimed_site_array (\<lambda>n. replicate n (CHR ''I''))
                               (\<lambda>v. if v = 0 then ''0'' else ''v'') [0, 0, 1 / 2, 0, 0, 1 / 4] 3 i) < 3 * 30
                 \<and> length (replicate ([3, 5, 0] ! (i * 3)) (CHR ''I''))
                     + length (replicate ([3, 5, 0] ! (i * 3 + 1)) (CHR ''I'')) \<le> 11"
    by (simp add: array)
  have unary: "replicate 3 (CHR ''I'') = ''III''" "replicate 5 (CHR ''I'') = ''IIIII''"
    by (simp_all add: eval_nat_numeral)
  show ?thesis
    using site_array_lists_nonzero_sites [where ig = 0 and numOfSelectedBranchPairs = 1
        and siteSpecificMap = "[0, 0, 1 / 2, 0, 0, 1 / 4]" and lst = 3
        and selectedBranchPairs = "[3, 5, 0]" and fmt_d = "\<lambda>n. replicate n (CHR ''I'')"
        and fmt_6f = "\<lambda>v. if v = 0 then ''0'' else ''v''" and htmlFileName = "''index.html''"
        and dataFile = "''UI/User/indexData.js''" and header = "[''header'']" and fs = Map.empty]
      fits
    by (simp add: data_file_path_def array unary)
qed

text \<open>
  \<^bold>\<open>C9 (amended).\<close>  The emitter opens every artifact for writing at its final path: a
  run changes no path other than the six final paths (no temporary file is created and
  nothing is renamed), and the previous content of an artifact is gone once it has been
  opened.  In particular, when the first template is missing the run ends with the data
  file rewritten and the main page empty.
\<close>

theorem emitter_writes_final_paths_in_place:
  assumes "data_file_path htmlFileName = Some dataFile"
  shows "(\<forall>p. p \<notin> output_paths htmlFileName \<longrightarrow>
            snd (outputDataInJS_files fmt_d htmlFileName data_text sel num fs) p = fs p)
       \<and> (fs ''UI/Template.html'' = None \<longrightarrow>
            outputDataInJS_files fmt_d htmlFileName data_text sel num fs
              = (Crashed, fs(dataFile \<mapsto> data_text, ''UI/User/'' @ htmlFileName \<mapsto> [])))"
  using assms outputDataInJS_files_frame outputDataInJS_files_template_missing
  by blast

text \<open>Witness for C9: a previous run left a page and a data file; no template exists.\<close>

theorem emitter_writes_final_paths_in_place_witness:
  "outputDataInJS_files (\<lambda>n. []) ''index.html'' [''new data''] [] 0
       [''UI/User/index.html'' \<mapsto> [''old page''], ''UI/User/indexData.js'' \<mapsto> [''old data'']]
     = (Crashed,
        [''UI/User/index.html'' \<mapsto> [''old page''], ''UI/User/indexData.js'' \<mapsto> [''old data'']]
          (''UI/User/indexData.js'' \<mapsto> [''new data''], ''UI/User/'' @ ''index.html'' \<mapsto> []))"
  using emitter_writes_final_paths_in_place [where htmlFileName = "''index.html''"
      and dataFile = "''UI/User/indexData.js''"
      and fs = "[''UI/User/index.html'' \<mapsto> [''old page''], ''UI/User/indexData.js'' \<mapsto> [''old data'']]"
      and fmt_d = "\<lambda>n. []" and data_text = "[''new data'']" and sel = "[]" and num = 0]
  by (simp add: data_file_path_def)

text \<open>Counterexample to C9 as stated: the run fails, and both artifacts of the previous
  run have been overwritten.\<close>

theorem emitter_overwrites_on_failure_counterexample:
  "fst (outputDataInJS_files (\<lambda>n. []) ''index.html'' [''new data''] [] 0
       [''UI/User/index.html'' \<mapsto> [''old page''], ''UI/User/indexData.js'' \<mapsto> [''old data'']])
     = Crashed
   \<and> snd (outputDataInJS_files (\<lambda>n. []) ''index.html'' [''new data''] [] 0
       [''UI/User/index.html'' \<mapsto> [''old page''], ''UI/User/indexData.js'' \<mapsto> [''old data'']])
       ''UI/User/index.html'' = Some []
   \<and> snd (outputDataInJS_files (\<lambda>n. []) ''index.html'' [''new data''] [] 0
       [''UI/User/index.html'' \<mapsto> [''old page''], ''UI/User/indexData.js'' \<mapsto> [''old data'']])
       ''UI/User/indexData.js'' = Some [''new data'']"
  using outputDataInJS_files_template_missing [where htmlFileName = "''index.html''"
      and dataFile = "''UI/User/indexData.js''"
      and fs = "[''UI/User/index.html'' \<mapsto> [''old page''], ''UI/User/indexData.js'' \<mapsto> [''old data'']]"
      and fmt_d = "\<lambda>n. []" and data_text = "[''new data'']" and sel = "[]" and num = 0]
  by (simp add: data_file_path_def)

end
